theory Spec2Isabelle
  imports Main "HOL-Library.Word"
begin

unbundle bit_operations_syntax

section \<open>Data model of \<open>src/main.cpp\<close>\<close>

text \<open>
  Keys, values, the bucket count and the mask are \<open>uint64_t\<close>: 64-bit words whose
  arithmetic wraps.  A pointer to an \<open>Entry\<close> is an optional address, \<open>None\<close> being
  \<open>nullptr\<close>.  Undefined behaviour of the C++ source (a count of leading zeros of 0, a
  shift by the full width, a read outside the mapped bucket array, a dereference of a
  null or released pointer, a release of a pointer that is not live) is an explicit
  error value, so that it is a branch of the model and not an unspecified result.
\<close>

type_synonym u64 = "64 word"
type_synonym addr = nat
type_synonym ptr = "addr option"

datatype error =
    ClzOfZero
  | ShiftOutOfRange
  | OutOfBounds
  | NullDeref
  | UseAfterFree
  | InvalidFree

text \<open>\<open>struct Entry { uint64_t key; uint64_t value; Entry *next; }\<close>\<close>

record Entry =
  e_key :: u64
  e_value :: u64
  e_next :: ptr

text \<open>
  The free store that \<open>new Entry()\<close> and \<open>delete\<close> work on: the live objects, and an
  allocator that hands out the most recently released address again, or else the next
  address never used.  No statement below depends on which address the allocator picks,
  only on it being an address that is not live.  The store is unbounded: \<open>new\<close> does
  not fail.
\<close>

record heap =
  objs :: "addr \<Rightarrow> Entry option"
  brk :: addr
  freed :: "addr list"

text \<open>
  \<open>struct Hashtable { uint64_t htSize; uint64_t mask; Entry **ht; }\<close>.  The field \<open>ht\<close>
  holds the contents of the anonymous mapping it points to, one slot per 8 bytes
  mapped.
\<close>

record Hashtable =
  htSize :: u64
  ht_mask :: u64
  ht :: "ptr list"

section \<open>The operations\<close>

subsection \<open>\<open>allocZeros\<close> and \<open>hashKey\<close>\<close>

text \<open>
  \<open>allocZeros(size)\<close> is \<open>mmap\<close> of \<open>size\<close> bytes of zero-filled anonymous memory: every
  pointer-sized slot of it reads as \<open>nullptr\<close>.  \<open>mmap\<close> fails, and returns \<open>MAP_FAILED\<close>,
  for a request of 0 bytes and for a request the system cannot map.  How much the system
  can map is not fixed by the source: \<open>avail\<close>, the largest number of bytes it grants to
  this call, is a parameter.  The source does not test the result; the pointer returned
  on failure maps nothing, which is the empty array here.
\<close>

definition allocZeros :: "nat \<Rightarrow> u64 \<Rightarrow> ptr list" where
  "allocZeros avail sz =
     (if sz = 0 \<or> avail < unat sz then [] else replicate (unat sz div 8) None)"

definition hashKey :: "u64 \<Rightarrow> u64" where
  "hashKey k0 =
     (let m = 0xc6a4a7935bd1e995;
          r = 47;
          h = 0x8445d61a4e774912 XOR (8 * m);
          k = k0 * m;
          k = k XOR drop_bit r k;
          k = k * m;
          h = h XOR k;
          h = h * m;
          h = h XOR drop_bit r h;
          h = h * m;
          h = h XOR drop_bit r h
      in h)"

subsection \<open>Construction\<close>

text \<open>\<open>clz_from n w\<close> counts the zero bits of \<open>w\<close> from bit \<open>n - 1\<close> downwards to the
  first set bit.\<close>

primrec clz_from :: "nat \<Rightarrow> u64 \<Rightarrow> nat" where
  "clz_from 0 w = 0"
| "clz_from (Suc n) w = (if bit w n then 0 else Suc (clz_from n w))"

text \<open>\<open>__builtin_clzl\<close>: the number of leading zero bits of a 64-bit value, undefined
  for 0.\<close>

definition builtin_clzl :: "u64 \<Rightarrow> error + nat" where
  "builtin_clzl x = (if x = 0 then Inl ClzOfZero else Inr (clz_from 64 x))"

text \<open>
  \<open>htSize = 1ull << ((8 * sizeof(uint64_t)) - __builtin_clzl(size));
   mask = htSize - 1;
   ht = allocZeros(sizeof(uint64_t) * htSize)\<close>.
  A shift of a 64-bit value by 64 or more is undefined; the byte count
  \<open>sizeof(uint64_t) * htSize\<close> is a 64-bit product and wraps.
\<close>

definition Hashtable_ctor :: "nat \<Rightarrow> u64 \<Rightarrow> error + Hashtable" where
  "Hashtable_ctor avail sz =
     (case builtin_clzl sz of
        Inl er \<Rightarrow> Inl er
      | Inr z \<Rightarrow>
          (let sh = 8 * 8 - z in
           if 64 \<le> sh then Inl ShiftOutOfRange
           else
             (let hs = push_bit sh (1 :: u64) in
              Inr \<lparr>htSize = hs, ht_mask = hs - 1, ht = allocZeros avail (8 * hs)\<rparr>)))"

text \<open>The bucket count of a table constructed with a requested size, when the
  construction is defined.\<close>

definition capacity :: "nat \<Rightarrow> u64 \<Rightarrow> nat option" where
  "capacity avail sz =
     (case Hashtable_ctor avail sz of Inl er \<Rightarrow> None | Inr t \<Rightarrow> Some (unat (htSize t)))"

subsection \<open>The free store and the bucket array\<close>

text \<open>\<open>new Entry()\<close> value-initialises the object: both integers 0, \<open>next\<close> null.\<close>

definition new_Entry :: "heap \<Rightarrow> addr \<times> heap" where
  "new_Entry h =
     (let z = \<lparr>e_key = 0, e_value = 0, e_next = None\<rparr> in
      case freed h of
        [] \<Rightarrow> (brk h, h\<lparr>objs := (objs h)(brk h \<mapsto> z), brk := Suc (brk h)\<rparr>)
      | a # fs \<Rightarrow> (a, h\<lparr>objs := (objs h)(a \<mapsto> z), freed := fs\<rparr>))"

definition delete_Entry :: "heap \<Rightarrow> addr \<Rightarrow> error + heap" where
  "delete_Entry h a =
     (if objs h a = None then Inl InvalidFree
      else Inr (h\<lparr>objs := (objs h)(a := None), freed := a # freed h\<rparr>))"

text \<open>A write to fields of the object at \<open>a\<close>, which must be live.\<close>

definition store :: "heap \<Rightarrow> addr \<Rightarrow> (Entry \<Rightarrow> Entry) \<Rightarrow> error + heap" where
  "store h a f =
     (case objs h a of
        None \<Rightarrow> Inl UseAfterFree
      | Some en \<Rightarrow> Inr (h\<lparr>objs := (objs h)(a \<mapsto> f en)\<rparr>))"

text \<open>Reading and writing \<open>ht[i]\<close>.\<close>

definition bucket :: "Hashtable \<Rightarrow> u64 \<Rightarrow> error + ptr" where
  "bucket t i = (if unat i < length (ht t) then Inr (ht t ! unat i) else Inl OutOfBounds)"

definition set_bucket :: "Hashtable \<Rightarrow> u64 \<Rightarrow> ptr \<Rightarrow> error + Hashtable" where
  "set_bucket t i p =
     (if unat i < length (ht t) then Inr (t\<lparr>ht := (ht t)[unat i := p]\<rparr>)
      else Inl OutOfBounds)"

subsection \<open>\<open>lookup\<close>\<close>

text \<open>
  The loops of the source follow \<open>next\<close> pointers and need not end on a heap with a
  cycle, so each is a partial function into \<open>option\<close>: \<open>None\<close> is "does not return".
  \<open>for (Entry *e = ht[hashKey(key) & mask]; e; e = e->next) if (e->key == key) return e;
  return nullptr;\<close>
\<close>

partial_function (option) lookup_loop :: "heap \<Rightarrow> ptr \<Rightarrow> u64 \<Rightarrow> (error + ptr) option" where
  "lookup_loop h e key =
     (case e of
        None \<Rightarrow> Some (Inr None)
      | Some a \<Rightarrow>
          (case objs h a of
             None \<Rightarrow> Some (Inl UseAfterFree)
           | Some en \<Rightarrow>
               if e_key en = key then Some (Inr (Some a))
               else lookup_loop h (e_next en) key))"

declare lookup_loop.simps [code]

definition lookup :: "Hashtable \<Rightarrow> heap \<Rightarrow> u64 \<Rightarrow> (error + ptr) option" where
  "lookup t h key =
     (case bucket t (hashKey key AND ht_mask t) of
        Inl er \<Rightarrow> Some (Inl er)
      | Inr e \<Rightarrow> lookup_loop h e key)"

subsection \<open>\<open>insert\<close>\<close>

text \<open>\<open>while (current->next) current = current->next;\<close>\<close>

partial_function (option) tail_loop :: "heap \<Rightarrow> addr \<Rightarrow> (error + addr) option" where
  "tail_loop h current =
     (case objs h current of
        None \<Rightarrow> Some (Inl UseAfterFree)
      | Some en \<Rightarrow>
          (case e_next en of
             None \<Rightarrow> Some (Inr current)
           | Some n \<Rightarrow> tail_loop h n))"

declare tail_loop.simps [code]

text \<open>\<open>newEntry->key = key; newEntry->value = value; return true;\<close>\<close>

definition init_new ::
  "Hashtable \<Rightarrow> heap \<Rightarrow> addr \<Rightarrow> u64 \<Rightarrow> u64 \<Rightarrow> error + bool \<times> Hashtable \<times> heap" where
  "init_new t h newEntry key value =
     (case store h newEntry (\<lambda>en. en\<lparr>e_key := key, e_value := value\<rparr>) of
        Inl er \<Rightarrow> Inl er
      | Inr h' \<Rightarrow> Inr (True, t, h'))"

definition insert_kv ::
  "Hashtable \<Rightarrow> heap \<Rightarrow> u64 \<Rightarrow> u64 \<Rightarrow> (error + bool \<times> Hashtable \<times> heap) option" where
  "insert_kv t h key value =
     (case lookup t h key of
        None \<Rightarrow> None
      | Some (Inl er) \<Rightarrow> Some (Inl er)
      | Some (Inr (Some e)) \<Rightarrow>
          (case store h e (\<lambda>en. en\<lparr>e_value := value\<rparr>) of
             Inl er \<Rightarrow> Some (Inl er)
           | Inr h' \<Rightarrow> Some (Inr (False, t, h')))
      | Some (Inr None) \<Rightarrow>
          (let pos = hashKey key AND ht_mask t;
               (newEntry, h1) = new_Entry h
           in case bucket t pos of
                Inl er \<Rightarrow> Some (Inl er)
              | Inr None \<Rightarrow>
                  (case set_bucket t pos (Some newEntry) of
                     Inl er \<Rightarrow> Some (Inl er)
                   | Inr t' \<Rightarrow> Some (init_new t' h1 newEntry key value))
              | Inr (Some current) \<Rightarrow>
                  (case tail_loop h1 current of
                     None \<Rightarrow> None
                   | Some (Inl er) \<Rightarrow> Some (Inl er)
                   | Some (Inr current') \<Rightarrow>
                       (case store h1 current' (\<lambda>en. en\<lparr>e_next := Some newEntry\<rparr>) of
                          Inl er \<Rightarrow> Some (Inl er)
                        | Inr h2 \<Rightarrow> Some (init_new t h2 newEntry key value)))))"

subsection \<open>\<open>erase\<close>\<close>

text \<open>
  \<open>while (_current->next) { if (_current->next->key == key) { auto _next =
  _current->next->next; delete _current->next; _current->next = _next; return true; }
  _current = _current->next; } return false;\<close>
\<close>

partial_function (option) erase_loop ::
  "heap \<Rightarrow> addr \<Rightarrow> u64 \<Rightarrow> (error + bool \<times> heap) option" where
  "erase_loop h current key =
     (case objs h current of
        None \<Rightarrow> Some (Inl UseAfterFree)
      | Some c \<Rightarrow>
          (case e_next c of
             None \<Rightarrow> Some (Inr (False, h))
           | Some n \<Rightarrow>
               (case objs h n of
                  None \<Rightarrow> Some (Inl UseAfterFree)
                | Some d \<Rightarrow>
                    if e_key d = key then
                      (case delete_Entry h n of
                         Inl er \<Rightarrow> Some (Inl er)
                       | Inr h1 \<Rightarrow>
                           (case store h1 current (\<lambda>en. en\<lparr>e_next := e_next d\<rparr>) of
                              Inl er \<Rightarrow> Some (Inl er)
                            | Inr h2 \<Rightarrow> Some (Inr (True, h2))))
                    else erase_loop h n key)))"

declare erase_loop.simps [code]

definition erase ::
  "Hashtable \<Rightarrow> heap \<Rightarrow> u64 \<Rightarrow> (error + bool \<times> Hashtable \<times> heap) option" where
  "erase t h key =
     (let pos = hashKey key AND ht_mask t in
      case bucket t pos of
        Inl er \<Rightarrow> Some (Inl er)
      | Inr None \<Rightarrow> Some (Inr (False, t, h))
      | Inr (Some current) \<Rightarrow>
          (case objs h current of
             None \<Rightarrow> Some (Inl UseAfterFree)
           | Some c \<Rightarrow>
               if e_key c = key then
                 (case set_bucket t pos (e_next c) of
                    Inl er \<Rightarrow> Some (Inl er)
                  | Inr t' \<Rightarrow>
                      (case delete_Entry h current of
                         Inl er \<Rightarrow> Some (Inl er)
                       | Inr h' \<Rightarrow> Some (Inr (True, t', h'))))
               else
                 (case erase_loop h current key of
                    None \<Rightarrow> None
                  | Some (Inl er) \<Rightarrow> Some (Inl er)
                  | Some (Inr (b, h')) \<Rightarrow> Some (Inr (b, t, h')))))"

subsection \<open>Destruction\<close>

text \<open>\<open>while (_current != nullptr) { auto _next = _current->next; delete _current;
  _current = _next; }\<close>\<close>

partial_function (option) free_chain :: "heap \<Rightarrow> ptr \<Rightarrow> (error + heap) option" where
  "free_chain h current =
     (case current of
        None \<Rightarrow> Some (Inr h)
      | Some a \<Rightarrow>
          (case objs h a of
             None \<Rightarrow> Some (Inl UseAfterFree)
           | Some en \<Rightarrow>
               (case delete_Entry h a of
                  Inl er \<Rightarrow> Some (Inl er)
                | Inr h' \<Rightarrow> free_chain h' (e_next en))))"

declare free_chain.simps [code]

text \<open>\<open>for (uint64_t i = 0; i != htSize; ++i) { auto _current = ht[i]; ... }\<close>\<close>

partial_function (option) dtor_loop ::
  "Hashtable \<Rightarrow> heap \<Rightarrow> u64 \<Rightarrow> (error + heap) option" where
  "dtor_loop t h i =
     (if i = htSize t then Some (Inr h)
      else
        (case bucket t i of
           Inl er \<Rightarrow> Some (Inl er)
         | Inr current \<Rightarrow>
             Option.bind (free_chain h current)
               (\<lambda>r. case r of
                      Inl er \<Rightarrow> Some (Inl er)
                    | Inr h' \<Rightarrow> dtor_loop t h' (i + 1))))"

declare dtor_loop.simps [code]

text \<open>
  The kernel maps and unmaps whole pages.  The page size is not fixed by the source and
  is a parameter.  A mapping of \<open>n\<close> bytes occupies \<open>pages pagesize n\<close> pages;
  \<open>munmap(addr, len)\<close> at the start of a mapping releases the pages that hold any of its
  first \<open>len\<close> bytes, and nothing when \<open>len\<close> is 0.
\<close>

definition pages :: "nat \<Rightarrow> nat \<Rightarrow> nat" where
  "pages pagesize n = (n + pagesize - 1) div pagesize"

definition munmap :: "nat \<Rightarrow> nat \<Rightarrow> nat \<Rightarrow> nat" where
  "munmap pagesize mapped len = (if len = 0 then mapped else mapped - pages pagesize len)"

text \<open>
  \<open>~Hashtable()\<close>: the loop over the buckets, then \<open>munmap(ht, htSize)\<close>.  The result is
  the free store afterwards together with the number of pages of the bucket array that
  are still mapped.
\<close>

definition Hashtable_dtor ::
  "nat \<Rightarrow> Hashtable \<Rightarrow> heap \<Rightarrow> (error + heap \<times> nat) option" where
  "Hashtable_dtor pagesize t h =
     (case dtor_loop t h 0 of
        None \<Rightarrow> None
      | Some (Inl er) \<Rightarrow> Some (Inl er)
      | Some (Inr h') \<Rightarrow>
          Some (Inr (h', munmap pagesize (pages pagesize (8 * length (ht t)))
                           (unat (htSize t)))))"

subsection \<open>Sequences of calls\<close>

datatype op = Insert u64 u64 | Erase u64

fun step :: "op \<Rightarrow> Hashtable \<Rightarrow> heap \<Rightarrow> (error + bool \<times> Hashtable \<times> heap) option" where
  "step (Insert k v) t h = insert_kv t h k v"
| "step (Erase k) t h = erase t h k"

fun run :: "op list \<Rightarrow> Hashtable \<Rightarrow> heap \<Rightarrow> (error + Hashtable \<times> heap) option" where
  "run [] t h = Some (Inr (t, h))"
| "run (c # cs) t h =
     (case step c t h of
        None \<Rightarrow> None
      | Some (Inl er) \<Rightarrow> Some (Inl er)
      | Some (Inr (b, t', h')) \<Rightarrow> run cs t' h')"

text \<open>The free store before the first allocation.\<close>

definition empty_heap :: heap where
  "empty_heap = \<lparr>objs = (\<lambda>a. None), brk = 0, freed = []\<rparr>"

section \<open>Notions the specification uses\<close>

definition is_pow2 :: "nat \<Rightarrow> bool" where
  "is_pow2 n \<longleftrightarrow> (\<exists>i. n = 2 ^ i)"

definition least_pow2_ge :: "nat \<Rightarrow> nat \<Rightarrow> bool" where
  "least_pow2_ge s c \<longleftrightarrow> is_pow2 c \<and> s \<le> c \<and> (\<forall>d. is_pow2 d \<and> s \<le> d \<longrightarrow> c \<le> d)"

definition least_pow2_gt :: "nat \<Rightarrow> nat \<Rightarrow> bool" where
  "least_pow2_gt s c \<longleftrightarrow> is_pow2 c \<and> s < c \<and> (\<forall>d. is_pow2 d \<and> s < d \<longrightarrow> c \<le> d)"

text \<open>
  \<open>chain m p as\<close>: following \<open>next\<close> from the pointer \<open>p\<close> in the store \<open>m\<close> visits
  exactly the live objects at the addresses \<open>as\<close>, in this order, and ends at
  \<open>nullptr\<close>.
\<close>

primrec chain :: "(addr \<Rightarrow> Entry option) \<Rightarrow> ptr \<Rightarrow> addr list \<Rightarrow> bool" where
  "chain m p [] \<longleftrightarrow> p = None"
| "chain m p (a # as) \<longleftrightarrow>
     p = Some a \<and> (case m a of None \<Rightarrow> False | Some en \<Rightarrow> chain m (e_next en) as)"

text \<open>The key and the value stored in the object at an address, the bucket a key
  belongs to, and the first entry of a chain that holds a key.\<close>

definition key_at :: "heap \<Rightarrow> addr \<Rightarrow> u64" where
  "key_at h a = e_key (the (objs h a))"

definition value_at :: "heap \<Rightarrow> addr \<Rightarrow> u64" where
  "value_at h a = e_value (the (objs h a))"

definition index :: "Hashtable \<Rightarrow> u64 \<Rightarrow> nat" where
  "index t k = unat (hashKey k AND ht_mask t)"

definition holder :: "heap \<Rightarrow> addr list \<Rightarrow> u64 \<Rightarrow> ptr" where
  "holder h as k = find (\<lambda>a. key_at h a = k) as"

text \<open>The allocator's bookkeeping: released addresses are not live and are listed
  once; every address handed out so far lies below \<open>brk\<close>.\<close>

definition heap_ok :: "heap \<Rightarrow> bool" where
  "heap_ok h \<longleftrightarrow>
     distinct (freed h) \<and> set (freed h) \<inter> dom (objs h) = {}
     \<and> (\<forall>a \<in> set (freed h) \<union> dom (objs h). a < brk h)"

text \<open>
  \<open>valid t h ass\<close>: the table \<open>t\<close> on the free store \<open>h\<close> is well formed, bucket
  \<open>i\<close> holding the chain of entries \<open>ass ! i\<close>.  The array has \<open>htSize\<close> slots, every
  chain ends, an entry sits in the bucket of its key, no chain repeats a key, and the
  live objects are exactly the entries of the chains.
\<close>

definition valid :: "Hashtable \<Rightarrow> heap \<Rightarrow> addr list list \<Rightarrow> bool" where
  "valid t h ass \<longleftrightarrow>
     htSize t \<noteq> 0 \<and> ht_mask t = htSize t - 1 \<and> length (ht t) = unat (htSize t)
     \<and> length ass = length (ht t)
     \<and> (\<forall>i < length ass.
           chain (objs h) (ht t ! i) (ass ! i)
           \<and> distinct (map (key_at h) (ass ! i))
           \<and> (\<forall>a \<in> set (ass ! i). index t (key_at h a) = i))
     \<and> dom (objs h) = {a. \<exists>i < length ass. a \<in> set (ass ! i)}
     \<and> heap_ok h"

text \<open>What a caller observes of \<open>lookup\<close>: the value of the entry returned, if one is
  returned.\<close>

definition lookup_value :: "Hashtable \<Rightarrow> heap \<Rightarrow> u64 \<Rightarrow> u64 option" where
  "lookup_value t h k =
     (case lookup t h k of
        Some (Inr (Some a)) \<Rightarrow> map_option e_value (objs h a)
      | _ \<Rightarrow> None)"

text \<open>A call that neither erases the key \<open>k\<close> nor inserts it with a value other than
  \<open>v\<close>.\<close>

definition keeps :: "u64 \<Rightarrow> u64 \<Rightarrow> op \<Rightarrow> bool" where
  "keeps k v c \<longleftrightarrow> (case c of Insert k' v' \<Rightarrow> k' = k \<longrightarrow> v' = v | Erase k' \<Rightarrow> k' \<noteq> k)"

text \<open>The number of live \<open>Entry\<close> objects, the number of keys that \<open>lookup\<close> finds in
  the table, and the property that no two live objects carry the same key.\<close>

definition live_entries :: "heap \<Rightarrow> nat" where
  "live_entries h = card (dom (objs h))"


definition unique_keys :: "heap \<Rightarrow> bool" where
  "unique_keys h \<longleftrightarrow>
     (\<forall>a b ea eb. objs h a = Some ea \<and> objs h b = Some eb \<and> e_key ea = e_key eb \<longrightarrow> a = b)"

text \<open>
  A small table used to instantiate the statements below: two buckets, the keys 0 and
  1 chained in bucket 0 in this order.  It is the state after \<open>insert(0, 42)\<close> and
  \<open>insert(1, 7)\<close> on a table constructed with size 1.
\<close>

definition table2 :: Hashtable where
  "table2 = \<lparr>htSize = 2, ht_mask = 1, ht = [Some 0, None]\<rparr>"

definition heap2 :: heap where
  "heap2 = \<lparr>objs = [0 \<mapsto> \<lparr>e_key = 0, e_value = 42, e_next = Some 1\<rparr>,
                      1 \<mapsto> \<lparr>e_key = 1, e_value = 7, e_next = None\<rparr>],
            brk = 2, freed = []\<rparr>"

text \<open>
  The order in which keys were newly inserted, as the specification words it: a call
  \<open>insert(k, v)\<close> puts \<open>k\<close> at the end unless it is listed already, \<open>erase(k)\<close> takes it
  out.  \<open>ordered t h ass ks\<close>: the keys along the chain of every bucket are the keys of
  \<open>ks\<close> that belong to this bucket, in the order of \<open>ks\<close>.
\<close>

fun order_step :: "op \<Rightarrow> u64 list \<Rightarrow> u64 list" where
  "order_step (Insert k v) ks = (if k \<in> set ks then ks else ks @ [k])"
| "order_step (Erase k) ks = remove1 k ks"

definition insertion_order :: "op list \<Rightarrow> u64 list \<Rightarrow> u64 list" where
  "insertion_order cs ks = foldl (\<lambda>ks c. order_step c ks) ks cs"

definition ordered :: "Hashtable \<Rightarrow> heap \<Rightarrow> addr list list \<Rightarrow> u64 list \<Rightarrow> bool" where
  "ordered t h ass ks \<longleftrightarrow>
     (\<forall>i < length ass. map (key_at h) (ass ! i) = filter (\<lambda>k. index t k = i) ks)"

section \<open>Capacity rounding\<close>

lemma bit_top_nat:
  fixes m :: nat
  assumes "m < 2 ^ Suc n"
  shows "bit m n \<longleftrightarrow> 2 ^ n \<le> m"
proof -
  have "m div 2 ^ n < 2"
    using assms by (simp add: less_mult_imp_div_less)
  moreover have "m div 2 ^ n = 0 \<longleftrightarrow> m < 2 ^ n"
    by (simp add: div_eq_0_iff)
  ultimately show ?thesis
    unfolding bit_nat_def by (cases "m div 2 ^ n = 0") (auto simp: not_less)
qed

lemma bit_top_word:
  fixes w :: u64
  assumes "unat w < 2 ^ Suc n"
  shows "bit w n \<longleftrightarrow> 2 ^ n \<le> unat w"
  using bit_top_nat[OF assms] by (simp add: bit_unsigned_iff)

lemma clz_from_bounds:
  assumes "unat w < 2 ^ n" and "w \<noteq> 0"
  shows "clz_from n w < n \<and> 2 ^ (n - clz_from n w - 1) \<le> unat w
         \<and> unat w < 2 ^ (n - clz_from n w)"
  using assms
proof (induction n)
  case 0
  then show ?case by (simp add: unat_eq_0)
next
  case (Suc n)
  show ?case
  proof (cases "bit w n")
    case True
    then have "2 ^ n \<le> unat w"
      using bit_top_word[OF Suc.prems(1)] by simp
    with True Suc.prems show ?thesis by simp
  next
    case False
    then have "unat w < 2 ^ n"
      using bit_top_word[OF Suc.prems(1)] by simp
    from Suc.IH[OF this Suc.prems(2)] False show ?thesis by simp
  qed
qed

lemma unat_2p:
  assumes "n < 64"
  shows "unat ((2::u64) ^ n) = 2 ^ n"
proof -
  have "(2::nat) ^ n < 2 ^ LENGTH(64)"
    using assms by (simp only: len_bit0 len_num1 power_strict_increasing_iff)
  then have "unat (of_nat (2 ^ n) :: u64) = 2 ^ n"
    by (rule of_nat_inverse[OF refl])
  then show ?thesis by simp
qed

lemma capacity_bit_length:
  assumes "s \<noteq> 0" and "unat s < 2 ^ 63"
  shows "\<exists>n. 0 < n \<and> n < 64 \<and> Hashtable_ctor avail s = Inr \<lparr>htSize = 2 ^ n, ht_mask = 2 ^ n - 1, ht = allocZeros avail (8 * 2 ^ n)\<rparr>
              \<and> 2 ^ (n - 1) \<le> unat s \<and> unat s < 2 ^ n"
proof -
  have lt: "unat s < 2 ^ 64"
    using assms(2) by simp
  from clz_from_bounds[OF lt assms(1)]
  have b: "clz_from 64 s < 64" "2 ^ (64 - clz_from 64 s - 1) \<le> unat s"
    "unat s < 2 ^ (64 - clz_from 64 s)"
    by auto
  define n where "n = 64 - clz_from 64 s"
  have "n \<noteq> 64"
  proof
    assume "n = 64"
    then have "2 ^ 63 \<le> unat s"
      using b(2) by (simp add: n_def)
    with assms(2) show False by simp
  qed
  then have n: "0 < n" "n < 64"
    using b(1) by (auto simp: n_def)
  have "Hashtable_ctor avail s = Inr \<lparr>htSize = 2 ^ n, ht_mask = 2 ^ n - 1, ht = allocZeros avail (8 * 2 ^ n)\<rparr>"
    using n assms(1) by (simp add: Hashtable_ctor_def builtin_clzl_def Let_def n_def push_bit_of_1)
  with n b show ?thesis
    unfolding n_def by (intro exI[of _ "64 - clz_from 64 s"]) simp
qed

lemma capacity_eq:
  assumes "s \<noteq> 0" and "unat s < 2 ^ 63"
  shows "\<exists>n. 0 < n \<and> n < 64 \<and> capacity avail s = Some (2 ^ n) \<and> 2 ^ (n - 1) \<le> unat s \<and> unat s < 2 ^ n"
proof -
  from capacity_bit_length[OF assms] obtain n where n: "0 < n" "n < 64"
    "Hashtable_ctor avail s = Inr \<lparr>htSize = 2 ^ n, ht_mask = 2 ^ n - 1, ht = allocZeros avail (8 * 2 ^ n)\<rparr>"
    "2 ^ (n - 1) \<le> unat s" "unat s < 2 ^ n" by blast
  then have "capacity avail s = Some (2 ^ n)" by (simp add: capacity_def unat_2p)
  with n show ?thesis by blast
qed

lemma pow2_between:
  fixes x :: nat
  assumes "2 ^ (n - 1) \<le> x" "x < 2 ^ n" "0 < n" "x < 2 ^ j"
  shows "(2::nat) ^ n \<le> 2 ^ j"
proof -
  have "(2::nat) ^ (n - 1) < 2 ^ j" using assms(1,4) by (rule le_less_trans)
  then have "n - 1 < j" using power_less_imp_less_exp[of 2 "n - 1" j] by simp
  then have "n \<le> j" using assms(3) by simp
  then show ?thesis by simp
qed

lemma pow2_squeeze:
  assumes "2 ^ (n - 1) \<le> (2::nat) ^ i" "(2::nat) ^ i < 2 ^ n" "0 < n"
  shows "(2::nat) ^ n = 2 * 2 ^ i"
proof -
  have "n - 1 \<le> i" using assms(1) power_le_imp_le_exp[of 2 "n - 1" i] by simp
  have "i < n" using assms(2) power_less_imp_less_exp[of 2 i n] by simp
  note \<open>n - 1 \<le> i\<close> this
  then have "n = Suc i" using assms(3) by simp
  then show ?thesis by simp
qed

text \<open>
  Claim C9.  For every requested size \<open>s\<close> with \<open>1 \<le> s < 2^63\<close> the constructor
  yields a bucket count that is a power of two and at least \<open>s\<close>; when \<open>s\<close> is itself
  a power of two the bucket count is \<open>2 * s\<close>, not \<open>s\<close>.
\<close>

theorem capacity_pow2_ge:
  assumes "1 \<le> unat s" and "unat s < 2 ^ 63"
  shows "\<exists>c. capacity avail s = Some c \<and> is_pow2 c \<and> unat s \<le> c
             \<and> (is_pow2 (unat s) \<longrightarrow> c = 2 * unat s)"
proof -
  have "s \<noteq> 0" using assms(1) by (auto simp: unat_eq_0)
  from capacity_eq[OF this assms(2)] obtain n where n: "0 < n" "n < 64"
    "capacity avail s = Some (2 ^ n)" "2 ^ (n - 1) \<le> unat s" "unat s < 2 ^ n" by blast
  have "is_pow2 (unat s) \<longrightarrow> (2::nat) ^ n = 2 * unat s"
    using pow2_squeeze n by (auto simp: is_pow2_def)
  with n show ?thesis by (auto simp: is_pow2_def)
qed

theorem capacity_pow2_ge_witness:
  "\<exists>c. capacity (2 ^ 47) 8 = Some c \<and> is_pow2 c \<and> unat (8 :: u64) \<le> c
        \<and> (is_pow2 (unat (8 :: u64)) \<longrightarrow> c = 2 * unat (8 :: u64))"
  using capacity_pow2_ge[where s = 8 and avail = "2 ^ 47"] by simp

text \<open>
  Claim C1, as the code has it.  For every requested size \<open>s\<close> with
  \<open>1 \<le> s < 2^63\<close> the bucket count is the smallest power of two strictly greater than
  \<open>s\<close>.  It is the smallest power of two greater than or equal to \<open>s\<close> whenever \<open>s\<close>
  is not a power of two.
\<close>

theorem capacity_least_pow2_gt:
  assumes "1 \<le> unat s" and "unat s < 2 ^ 63"
  shows "\<exists>c. capacity avail s = Some c \<and> least_pow2_gt (unat s) c
             \<and> (\<not> is_pow2 (unat s) \<longrightarrow> least_pow2_ge (unat s) c)"
proof -
  have "s \<noteq> 0" using assms(1) by (auto simp: unat_eq_0)
  from capacity_eq[OF this assms(2)] obtain n where n: "0 < n" "n < 64"
    "capacity avail s = Some (2 ^ n)" "2 ^ (n - 1) \<le> unat s" "unat s < 2 ^ n" by blast
  have gt: "least_pow2_gt (unat s) (2 ^ n)"
    unfolding least_pow2_gt_def is_pow2_def using n pow2_between[OF n(4,5,1)] by auto
  have "least_pow2_ge (unat s) (2 ^ n)" if "\<not> is_pow2 (unat s)"
    unfolding least_pow2_ge_def
  proof (intro conjI allI impI)
    show "is_pow2 (2 ^ n)" by (auto simp: is_pow2_def)
    show "unat s \<le> 2 ^ n" using n by simp
    fix d assume d: "is_pow2 d \<and> unat s \<le> d"
    with that have "unat s \<noteq> d" by auto
    with d have "unat s < d" by simp
    with d gt show "2 ^ n \<le> d" by (auto simp: least_pow2_gt_def)
  qed
  with gt n show ?thesis by auto
qed

theorem capacity_least_pow2_gt_witness:
  "\<exists>c. capacity (2 ^ 47) 837 = Some c \<and> least_pow2_gt (unat (837 :: u64)) c
             \<and> (\<not> is_pow2 (unat (837 :: u64)) \<longrightarrow> least_pow2_ge (unat (837 :: u64)) c)"
  using capacity_least_pow2_gt[where s = 837 and avail = "2 ^ 47"] by simp

lemma clz_1: "clz_from 64 1 = 63"
  by code_simp

lemma capacity_1: "capacity (2 ^ 47) 1 = Some 2"
  by (simp add: capacity_def Hashtable_ctor_def builtin_clzl_def clz_1)

text \<open>
  Claim C1 as stated fails at a power of two: for the requested size 1 the bucket count
  is 2, while the smallest power of two greater than or equal to 1 is 1.
\<close>

theorem capacity_least_pow2_ge_counterexample:
  "capacity (2 ^ 47) 1 = Some 2 \<and> \<not> least_pow2_ge (unat (1 :: u64)) 2"
proof -
  have "is_pow2 1" unfolding is_pow2_def by (rule exI[of _ 0]) simp
  then have "\<not> least_pow2_ge 1 2" by (auto simp: least_pow2_ge_def)
  with capacity_1 show ?thesis by simp
qed

section \<open>Chains in the free store\<close>

lemma chain_None [simp]: "chain m None as \<longleftrightarrow> as = []"
  by (cases as) auto

lemma chain_Some: "chain m (Some a) as \<longleftrightarrow> (\<exists>en bs. as = a # bs \<and> m a = Some en \<and> chain m (e_next en) bs)"
  by (cases as) (auto split: option.splits)

lemma chain_unique: "chain m p as \<Longrightarrow> chain m p bs \<Longrightarrow> as = bs"
proof (induction as arbitrary: p bs)
  case Nil
  then show ?case by simp
next
  case (Cons a as)
  then show ?case by (cases bs) (auto split: option.splits)
qed

lemma chain_live: "chain m p as \<Longrightarrow> a \<in> set as \<Longrightarrow> m a \<noteq> None"
  by (induction as arbitrary: p) (auto split: option.splits)

lemma chain_cong:
  "(\<And>a. a \<in> set as \<Longrightarrow> map_option e_next (m' a) = map_option e_next (m a))
   \<Longrightarrow> chain m' p as = chain m p as"
proof (induction as arbitrary: p)
  case Nil
  then show ?case by simp
next
  case (Cons a as)
  have "map_option e_next (m' a) = map_option e_next (m a)"
    using Cons.prems by simp
  moreover have "chain m' q as = chain m q as" for q
    using Cons by simp
  ultimately show ?case
    by (cases "m a"; cases "m' a") auto
qed

lemma lookup_loop_chain:
  "chain (objs h) p as \<Longrightarrow> lookup_loop h p k = Some (Inr (holder h as k))"
proof (induction as arbitrary: p)
  case Nil
  then show ?case by (subst lookup_loop.simps) (simp add: holder_def)
next
  case (Cons a as)
  then obtain en where en: "p = Some a" "objs h a = Some en" "chain (objs h) (e_next en) as"
    by (auto split: option.splits)
  show ?case
  proof (cases "e_key en = k")
    case True
    with en show ?thesis
      by (subst lookup_loop.simps) (simp add: holder_def key_at_def)
  next
    case False
    with en Cons.IH[OF en(3)] show ?thesis
      by (subst lookup_loop.simps) (simp add: holder_def key_at_def)
  qed
qed

lemma and_mask_less:
  fixes w :: u64
  assumes "w \<noteq> 0"
  shows "unat (x AND (w - 1)) < unat w"
proof -
  have "x AND (w - 1) \<le> w - 1" by (rule word_and_le1)
  then have "unat (x AND (w - 1)) \<le> unat (w - 1)" by (simp add: word_le_nat_alt)
  also have "unat (w - 1) = unat w - 1" using assms by (rule unat_minus_one)
  also have "\<dots> < unat w" using assms by (simp add: unat_gt_0)
  finally show ?thesis .
qed

lemma valid_index: "valid t h ass \<Longrightarrow> index t k < length (ht t)"
  by (simp add: valid_def index_def and_mask_less)

lemma valid_bucket:
  "valid t h ass \<Longrightarrow> bucket t (hashKey k AND ht_mask t) = Inr (ht t ! index t k)"
  using valid_index[of t h ass k] by (simp add: bucket_def index_def)

lemma valid_chain: "valid t h ass \<Longrightarrow> i < length (ht t) \<Longrightarrow> chain (objs h) (ht t ! i) (ass ! i)"
  by (simp add: valid_def)

lemma lookup_valid:
  assumes "valid t h ass"
  shows "lookup t h k = Some (Inr (holder h (ass ! index t k) k))"
  using valid_chain[OF assms valid_index[OF assms]] 
  by (simp add: lookup_def valid_bucket[OF assms] lookup_loop_chain)

lemma new_Entry_fresh:
  assumes "heap_ok h" and "new_Entry h = (a, h1)"
  shows "a \<notin> dom (objs h)"
    and "objs h1 = (objs h)(a \<mapsto> \<lparr>e_key = 0, e_value = 0, e_next = None\<rparr>)"
    and "heap_ok h1"
proof -
  show "a \<notin> dom (objs h)"
    using assms by (cases "freed h") (auto simp: heap_ok_def new_Entry_def)
  show "objs h1 = (objs h)(a \<mapsto> \<lparr>e_key = 0, e_value = 0, e_next = None\<rparr>)"
    using assms(2) by (cases "freed h") (auto simp: new_Entry_def)
  show "heap_ok h1"
  proof (cases "freed h")
    case Nil
    with assms have "h1 = h\<lparr>objs := (objs h)(brk h \<mapsto> \<lparr>e_key = 0, e_value = 0, e_next = None\<rparr>), brk := Suc (brk h)\<rparr>"
      by (auto simp: new_Entry_def)
    with assms(1) Nil show ?thesis
      by (auto simp: heap_ok_def less_Suc_eq)
  next
    case (Cons b fs)
    with assms have "h1 = h\<lparr>objs := (objs h)(b \<mapsto> \<lparr>e_key = 0, e_value = 0, e_next = None\<rparr>), freed := fs\<rparr>"
      by (auto simp: new_Entry_def)
    with assms(1) Cons show ?thesis
      by (auto simp: heap_ok_def)
  qed
qed

lemma store_live:
  "objs h a = Some en \<Longrightarrow> store h a f = Inr (h\<lparr>objs := (objs h)(a \<mapsto> f en)\<rparr>)"
  by (simp add: store_def)

lemma delete_live:
  "objs h a = Some en \<Longrightarrow>
   delete_Entry h a = Inr (h\<lparr>objs := (objs h)(a := None), freed := a # freed h\<rparr>)"
  by (simp add: delete_Entry_def)

lemma heap_ok_store:
  "heap_ok h \<Longrightarrow> objs h a = Some en \<Longrightarrow> heap_ok (h\<lparr>objs := (objs h)(a \<mapsto> en')\<rparr>)"
  by (auto simp: heap_ok_def)

lemma heap_ok_delete:
  "heap_ok h \<Longrightarrow> objs h a = Some en \<Longrightarrow>
   heap_ok (h\<lparr>objs := (objs h)(a := None), freed := a # freed h\<rparr>)"
  by (auto simp: heap_ok_def)

lemma tail_loop_chain:
  "chain (objs h) (Some c) as \<Longrightarrow> tail_loop h c = Some (Inr (last as))"
proof (induction as arbitrary: c)
  case Nil
  then show ?case by simp
next
  case (Cons a as)
  then obtain en where en: "c = a" "objs h a = Some en" "chain (objs h) (e_next en) as"
    by (auto split: option.splits)
  show ?case
  proof (cases "e_next en")
    case None
    with en show ?thesis by (subst tail_loop.simps) simp
  next
    case (Some n)
    with en have "as \<noteq> []" by auto
    with en Some Cons.IH[of n] show ?thesis
      by (subst tail_loop.simps) simp
  qed
qed

lemma chain_last_next:
  "chain m p as \<Longrightarrow> as \<noteq> [] \<Longrightarrow> \<exists>el. m (last as) = Some el \<and> e_next el = None"
proof (induction as arbitrary: p)
  case Nil
  then show ?case by simp
next
  case (Cons a as)
  then show ?case by (cases as) (auto split: option.splits)
qed

lemma chain_snoc:
  assumes "chain m p as" and "as \<noteq> []" and "a \<notin> set as" and "distinct as"
    and "m' a = Some ea" and "e_next ea = None"
    and "m (last as) = Some el" and "m' (last as) = Some (el\<lparr>e_next := Some a\<rparr>)"
    and "\<And>b. b \<in> set (butlast as) \<Longrightarrow> m' b = m b"
  shows "chain m' p (as @ [a])"
  using assms
proof (induction as arbitrary: p)
  case Nil
  then show ?case by simp
next
  case (Cons x xs)
  show ?case
  proof (cases xs)
    case Nil
    with Cons.prems show ?thesis by (auto split: option.splits)
  next
    case (Cons y ys)
    from Cons.prems(1) obtain en where en: "p = Some x" "m x = Some en" "chain m (e_next en) xs"
      by (auto split: option.splits)
    have "m' x = m x" using Cons.prems(9)[of x] Cons by simp
    moreover have "chain m' (e_next en) (xs @ [a])"
      using Cons.prems Cons en by (intro Cons.IH) auto
    ultimately show ?thesis using en by simp
  qed
qed

lemma distinct_map_D: "distinct (map f xs) \<Longrightarrow> distinct xs"
  by (simp add: distinct_map)

lemma holder_None_iff: "holder h as k = None \<longleftrightarrow> k \<notin> key_at h ` set as"
  by (auto simp: holder_def find_None_iff)

lemma holder_Some_D:
  "holder h as k = Some a \<Longrightarrow> a \<in> set as \<and> key_at h a = k"
  by (auto simp: holder_def find_Some_iff)

lemma validI:
  assumes "htSize t \<noteq> 0" "ht_mask t = htSize t - 1" "length (ht t) = unat (htSize t)"
    and "length ass = length (ht t)"
    and "\<And>i. i < length ass \<Longrightarrow> chain (objs h) (ht t ! i) (ass ! i)"
    and "\<And>i. i < length ass \<Longrightarrow> distinct (map (key_at h) (ass ! i))"
    and "\<And>i a. i < length ass \<Longrightarrow> a \<in> set (ass ! i) \<Longrightarrow> index t (key_at h a) = i"
    and "dom (objs h) = {a. \<exists>i < length ass. a \<in> set (ass ! i)}"
    and "heap_ok h"
  shows "valid t h ass"
  using assms unfolding valid_def by blast

lemma valid_shape:
  "valid t h ass \<Longrightarrow> htSize t \<noteq> 0 \<and> ht_mask t = htSize t - 1
     \<and> length (ht t) = unat (htSize t) \<and> length ass = length (ht t)"
  by (simp add: valid_def)

lemma valid_length: "valid t h ass \<Longrightarrow> length ass = length (ht t)"
  by (simp add: valid_def)

lemma valid_distinct_keys:
  "valid t h ass \<Longrightarrow> i < length (ht t) \<Longrightarrow> distinct (map (key_at h) (ass ! i))"
  by (simp add: valid_def)

lemma valid_placed:
  "valid t h ass \<Longrightarrow> i < length (ht t) \<Longrightarrow> a \<in> set (ass ! i) \<Longrightarrow> index t (key_at h a) = i"
  by (simp add: valid_def)

lemma valid_dom:
  "valid t h ass \<Longrightarrow> dom (objs h) = {a. \<exists>i < length (ht t). a \<in> set (ass ! i)}"
  by (simp add: valid_def)

lemma valid_heap_ok: "valid t h ass \<Longrightarrow> heap_ok h"
  by (simp add: valid_def)

lemma valid_live:
  "valid t h ass \<Longrightarrow> i < length (ht t) \<Longrightarrow> a \<in> set (ass ! i) \<Longrightarrow> a \<in> dom (objs h)"
  by (auto simp: valid_dom)

lemma valid_disjoint:
  assumes "valid t h ass" "i < length (ht t)" "j < length (ht t)"
    "a \<in> set (ass ! i)" "a \<in> set (ass ! j)"
  shows "i = j"
  using valid_placed[OF assms(1,2,4)] valid_placed[OF assms(1,3,5)] by simp

text \<open>A heap that agrees with a valid one on every key and every link, with the same
  allocator state, is valid for the same table and chains.\<close>

lemma valid_heap_cong:
  assumes v: "valid t h ass"
    and nx: "\<And>a. map_option e_next (objs h' a) = map_option e_next (objs h a)"
    and ky: "\<And>a. map_option e_key (objs h' a) = map_option e_key (objs h a)"
    and al: "brk h' = brk h" "freed h' = freed h"
  shows "valid t h' ass"
proof -
  have dom: "dom (objs h') = dom (objs h)"
  proof -
    have "objs h' a = None \<longleftrightarrow> objs h a = None" for a
      using nx[of a] by (cases "objs h a"; cases "objs h' a") auto
    then show ?thesis by (auto simp: dom_def)
  qed
  have key: "key_at h' a = key_at h a" for a
    using ky[of a] by (cases "objs h a"; cases "objs h' a") (auto simp: key_at_def)
  have "key_at h' = key_at h" using key by (rule ext)
  moreover have "chain (objs h') p as = chain (objs h) p as" for p as
    by (rule chain_cong) (rule nx)
  moreover have "heap_ok h'"
    using valid_heap_ok[OF v] al dom by (simp add: heap_ok_def)
  ultimately show ?thesis
    using v dom by (simp add: valid_def)
qed

lemma insert_update:
  assumes v: "valid t h ass" and present: "holder h (ass ! index t k) k = Some a"
  shows "\<exists>en. objs h a = Some en \<and> e_key en = k
           \<and> insert_kv t h k val = Some (Inr (False, t, h\<lparr>objs := (objs h)(a \<mapsto> en\<lparr>e_value := val\<rparr>)\<rparr>))
           \<and> valid t (h\<lparr>objs := (objs h)(a \<mapsto> en\<lparr>e_value := val\<rparr>)\<rparr>) ass"
proof -
  have i: "index t k < length (ht t)" by (rule valid_index[OF v])
  from holder_Some_D[OF present] have a: "a \<in> set (ass ! index t k)" "key_at h a = k" by auto
  from valid_live[OF v i a(1)] obtain en where en: "objs h a = Some en" by auto
  with a(2) have k: "e_key en = k" by (simp add: key_at_def)
  let ?h' = "h\<lparr>objs := (objs h)(a \<mapsto> en\<lparr>e_value := val\<rparr>)\<rparr>"
  have "insert_kv t h k val = Some (Inr (False, t, ?h'))"
    by (simp add: insert_kv_def lookup_valid[OF v] present store_live[OF en])
  moreover have "valid t ?h' ass"
    using en by (intro valid_heap_cong[OF v]) auto
  ultimately show ?thesis using en k by blast
qed

lemma valid_insert_step:
  assumes v: "valid t h ass"
    and i: "i = index t k"
    and absent: "k \<notin> key_at h ` set (ass ! i)"
    and fresh: "a \<notin> dom (objs h)"
    and ok: "heap_ok h'"
    and shape: "htSize t' = htSize t" "ht_mask t' = ht_mask t" "length (ht t') = length (ht t)"
    and new: "objs h' a = Some \<lparr>e_key = k, e_value = val, e_next = None\<rparr>"
    and dom: "dom (objs h') = insert a (dom (objs h))"
    and keys: "\<And>b. b \<noteq> a \<Longrightarrow> key_at h' b = key_at h b"
    and ci: "chain (objs h') (ht t' ! i) (ass ! i @ [a])"
    and cj: "\<And>j. j < length (ht t) \<Longrightarrow> j \<noteq> i \<Longrightarrow> chain (objs h') (ht t' ! j) (ass ! j)"
  shows "valid t' h' (ass[i := ass ! i @ [a]])"
proof (rule validI)
  let ?ass = "ass[i := ass ! i @ [a]]"
  note sh = valid_shape[OF v]
  have il: "i < length (ht t)" unfolding i by (rule valid_index[OF v])
  have len: "length ?ass = length (ht t)" using sh by simp
  have a_notin: "a \<notin> set (ass ! j)" if "j < length (ht t)" for j
    using valid_live[OF v that] fresh by blast
  have ka: "key_at h' a = k" using new by (simp add: key_at_def)
  have idx: "index t' = index t" using shape by (auto simp: index_def fun_eq_iff)
  show "htSize t' \<noteq> 0" "ht_mask t' = htSize t' - 1" "length (ht t') = unat (htSize t')"
    "length ?ass = length (ht t')"
    using sh shape by simp_all
  show "heap_ok h'" by (rule ok)
  show "chain (objs h') (ht t' ! j) (?ass ! j)" if "j < length ?ass" for j
    using that ci cj[of j] sh by (cases "j = i") simp_all
  show "distinct (map (key_at h') (?ass ! j))" if "j < length ?ass" for j
  proof -
    have j: "j < length (ht t)" using that sh by simp
    have meq: "map (key_at h') (ass ! j) = map (key_at h) (ass ! j)"
    proof (rule map_cong[OF refl])
      fix x assume "x \<in> set (ass ! j)"
      with a_notin[OF j] have "x \<noteq> a" by blast
      then show "key_at h' x = key_at h x" by (rule keys)
    qed
    have d: "distinct (map (key_at h') (ass ! j))"
      unfolding meq by (rule valid_distinct_keys[OF v j])
    show ?thesis
    proof (cases "j = i")
      case True
      have "k \<notin> set (map (key_at h) (ass ! i))"
        using absent by simp
      with meq True have "k \<notin> set (map (key_at h') (ass ! i))"
        by metis
      with d True il sh ka show ?thesis by simp
    next
      case False
      with d show ?thesis by simp
    qed
  qed
  show "index t' (key_at h' b) = j" if "j < length ?ass" "b \<in> set (?ass ! j)" for j b
  proof -
    have j: "j < length (ht t)" using that sh by simp
    show ?thesis
    proof (cases "b = a")
      case True
      with that a_notin[OF j] sh have "j = i" by (cases "j = i") auto
      with True ka i idx show ?thesis by simp
    next
      case False
      with that sh have "b \<in> set (ass ! j)" by (cases "j = i") auto
      from valid_placed[OF v j this] False keys idx show ?thesis by simp
    qed
  qed
  show "dom (objs h') = {b. \<exists>j < length ?ass. b \<in> set (?ass ! j)}"
  proof -
    have "{b. \<exists>j < length ?ass. b \<in> set (?ass ! j)} = insert a {b. \<exists>j < length (ht t). b \<in> set (ass ! j)}"
      using il sh by (auto simp: nth_list_update split: if_splits)
    then show ?thesis using dom valid_dom[OF v] by simp
  qed
qed

lemma chain_upd_notin: "a \<notin> set as \<Longrightarrow> chain (m(a := x)) p as = chain m p as"
  by (rule chain_cong) auto

lemma insert_new:
  assumes v: "valid t h ass" and absent: "holder h (ass ! index t k) k = None"
  shows "\<exists>a t' h'. insert_kv t h k val = Some (Inr (True, t', h'))
     \<and> a \<notin> dom (objs h)
     \<and> valid t' h' (ass[index t k := ass ! index t k @ [a]])
     \<and> objs h' a = Some \<lparr>e_key = k, e_value = val, e_next = None\<rparr>
     \<and> dom (objs h') = insert a (dom (objs h))
     \<and> (\<forall>b. b \<noteq> a \<longrightarrow> key_at h' b = key_at h b \<and> value_at h' b = value_at h b)
     \<and> htSize t' = htSize t \<and> ht_mask t' = ht_mask t"
proof -
  define i where "i = index t k"
  obtain a h1 where new: "new_Entry h = (a, h1)"
    by (cases "new_Entry h")
  note nf = new_Entry_fresh[OF valid_heap_ok[OF v] new]
  let ?e = "\<lparr>e_key = k, e_value = val, e_next = None\<rparr>"
  have il: "i < length (ht t)"
    unfolding i_def by (rule valid_index[OF v])
  have lk: "lookup t h k = Some (Inr None)"
    using lookup_valid[OF v, of k] absent by simp
  have bk: "bucket t (hashKey k AND ht_mask t) = Inr (ht t ! i)"
    unfolding i_def by (rule valid_bucket[OF v])
  have ch: "chain (objs h) (ht t ! i) (ass ! i)"
    by (rule valid_chain[OF v il])
  have kabs: "k \<notin> key_at h ` set (ass ! i)"
    using absent by (simp add: holder_None_iff i_def)
  have a_notin: "a \<notin> set (ass ! j)" if "j < length (ht t)" for j
    using valid_live[OF v that] nf(1) by blast
  have st_new: "store g a (\<lambda>en. en\<lparr>e_key := k, e_value := val\<rparr>) = Inr (g\<lparr>objs := (objs g)(a \<mapsto> ?e)\<rparr>)"
    if "objs g a = Some \<lparr>e_key = 0, e_value = 0, e_next = None\<rparr>" for g
    using store_live[OF that] by simp
  show ?thesis
  proof (cases "ht t ! i")
    case None
    then have empty: "ass ! i = []"
      using ch by simp
    define t' where "t' = t\<lparr>ht := (ht t)[i := Some a]\<rparr>"
    define h' where "h' = h1\<lparr>objs := (objs h1)(a \<mapsto> ?e)\<rparr>"
    have sb: "set_bucket t (hashKey k AND ht_mask t) (Some a) = Inr t'"
      using il by (simp add: set_bucket_def t'_def i_def index_def)
    have st: "store h1 a (\<lambda>en. en\<lparr>e_key := k, e_value := val\<rparr>) = Inr h'"
      unfolding h'_def by (rule st_new) (simp add: nf(2))
    have res: "insert_kv t h k val = Some (Inr (True, t', h'))"
      by (simp add: insert_kv_def lk new bk None sb init_new_def st)
    have objs': "objs h' = (objs h)(a \<mapsto> ?e)"
      by (simp add: h'_def nf(2))
    have ok: "heap_ok h'"
      unfolding h'_def by (rule heap_ok_store[OF nf(3)]) (simp add: nf(2))
    have keys: "key_at h' b = key_at h b \<and> value_at h' b = value_at h b" if "b \<noteq> a" for b
      using that by (simp add: key_at_def value_at_def objs')
    have cong: "chain (objs h') p (ass ! j) = chain (objs h) p (ass ! j)" if "j < length (ht t)" for j p
      using a_notin[OF that] by (intro chain_cong) (auto simp: objs')
    have val: "valid t' h' (ass[i := ass ! i @ [a]])"
    proof (rule valid_insert_step[OF v i_def kabs nf(1) ok])
      show "htSize t' = htSize t" "ht_mask t' = ht_mask t" "length (ht t') = length (ht t)"
        by (simp_all add: t'_def)
      show "objs h' a = Some ?e" by (simp add: objs')
      show "dom (objs h') = insert a (dom (objs h))" by (simp add: objs')
      show "key_at h' b = key_at h b" if "b \<noteq> a" for b using keys[OF that] by simp
      show "chain (objs h') (ht t' ! i) (ass ! i @ [a])"
        using il by (simp add: empty t'_def objs')
      show "chain (objs h') (ht t' ! j) (ass ! j)" if "j < length (ht t)" "j \<noteq> i" for j
        using that valid_chain[OF v that(1)] cong[OF that(1)] by (simp add: t'_def)
    qed
    show ?thesis
      using res nf(1) val keys objs' unfolding i_def[symmetric]
      by (intro exI[of _ a] exI[of _ t'] exI[of _ h']) (simp add: t'_def)
  next
    case (Some c)
    with ch have ne: "ass ! i \<noteq> []" by auto
    define l where "l = last (ass ! i)"
    have l_in: "l \<in> set (ass ! i)" unfolding l_def using ne by simp
    have la: "l \<noteq> a" using l_in a_notin[OF il] by blast
    from chain_last_next[OF ch ne] obtain el where el: "objs h l = Some el" "e_next el = None"
      unfolding l_def by blast
    have ch1: "chain (objs h1) (Some c) (ass ! i)"
      using ch Some a_notin[OF il] by (simp add: nf(2) chain_upd_notin)
    have tl: "tail_loop h1 c = Some (Inr l)"
      unfolding l_def by (rule tail_loop_chain[OF ch1])
    define h2 where "h2 = h1\<lparr>objs := (objs h1)(l \<mapsto> el\<lparr>e_next := Some a\<rparr>)\<rparr>"
    define h' where "h' = h2\<lparr>objs := (objs h2)(a \<mapsto> ?e)\<rparr>"
    have el1: "objs h1 l = Some el" using el la by (simp add: nf(2))
    have st1: "store h1 l (\<lambda>en. en\<lparr>e_next := Some a\<rparr>) = Inr h2"
      unfolding h2_def by (rule store_live[OF el1])
    have st2: "store h2 a (\<lambda>en. en\<lparr>e_key := k, e_value := val\<rparr>) = Inr h'"
      unfolding h'_def using la by (intro st_new) (auto simp: h2_def nf(2))
    have res: "insert_kv t h k val = Some (Inr (True, t, h'))"
      by (simp add: insert_kv_def lk new bk Some tl st1 init_new_def st2)
    have objs': "objs h' = (objs h)(l \<mapsto> el\<lparr>e_next := Some a\<rparr>, a \<mapsto> ?e)"
      using la by (auto simp: h'_def h2_def nf(2))
    have ok: "heap_ok h'"
      unfolding h'_def h2_def
      using la by (intro heap_ok_store[OF heap_ok_store[OF nf(3) el1]]) (auto simp: nf(2))
    have keys: "key_at h' b = key_at h b \<and> value_at h' b = value_at h b" if "b \<noteq> a" for b
      using that el by (simp add: key_at_def value_at_def objs')
    have dist: "distinct (ass ! i)"
      using valid_distinct_keys[OF v il] by (rule distinct_map_D)
    have val: "valid t h' (ass[i := ass ! i @ [a]])"
    proof (rule valid_insert_step[OF v i_def kabs nf(1) ok])
      show "htSize t = htSize t" "ht_mask t = ht_mask t" "length (ht t) = length (ht t)"
        by simp_all
      show "objs h' a = Some ?e" by (simp add: objs')
      show "dom (objs h') = insert a (dom (objs h))" using el by (auto simp: objs')
      show "key_at h' b = key_at h b" if "b \<noteq> a" for b using keys[OF that] by simp
      show "chain (objs h') (ht t ! i) (ass ! i @ [a])"
      proof (rule chain_snoc[OF ch ne a_notin[OF il] dist])
        show "objs h' a = Some ?e" by (simp add: objs')
        show "e_next ?e = None" by simp
        show "objs h (last (ass ! i)) = Some el" using el by (simp add: l_def)
        show "objs h' (last (ass ! i)) = Some (el\<lparr>e_next := Some a\<rparr>)"
          using la by (simp add: objs' l_def)
        show "objs h' b = objs h b" if "b \<in> set (butlast (ass ! i))" for b
        proof -
          have "b \<in> set (ass ! i)" using that by (rule in_set_butlastD)
          then have "b \<noteq> a" using a_notin[OF il] by blast
          moreover have "b \<noteq> l"
            using that dist ne unfolding l_def
            by (metis append_butlast_last_id distinct_append disjoint_iff list.set_intros(1))
          ultimately show ?thesis by (simp add: objs')
        qed
      qed
      show "chain (objs h') (ht t ! j) (ass ! j)" if "j < length (ht t)" "j \<noteq> i" for j
      proof -
        have "b \<noteq> a \<and> b \<noteq> l" if "b \<in> set (ass ! j)" for b
          using that a_notin[OF \<open>j < length (ht t)\<close>] valid_disjoint[OF v \<open>j < length (ht t)\<close> il that] l_in \<open>j \<noteq> i\<close>
          by blast
        then have "chain (objs h') (ht t ! j) (ass ! j) = chain (objs h) (ht t ! j) (ass ! j)"
          by (intro chain_cong) (simp add: objs')
        then show ?thesis using valid_chain[OF v that(1)] by simp
      qed
    qed
    have "dom (objs h') = insert a (dom (objs h))" using el by (auto simp: objs')
    then show ?thesis
      using res nf(1) val keys objs' unfolding i_def[symmetric]
      by (intro exI[of _ a] exI[of _ t] exI[of _ h']) simp
  qed
qed

lemma holder_Cons:
  "holder h (a # as) k = (if key_at h a = k then Some a else holder h as k)"
  by (simp add: holder_def)

lemma erase_loop_chain:
  assumes "chain (objs h) (Some c) (c # as)" and "distinct (c # as)"
  shows "case holder h as k of
           None \<Rightarrow> erase_loop h c k = Some (Inr (False, h))
         | Some n \<Rightarrow>
             (\<exists>h'. erase_loop h c k = Some (Inr (True, h'))
                \<and> chain (objs h') (Some c) (c # remove1 n as)
                \<and> (\<forall>b. b \<notin> set (c # as) \<longrightarrow> objs h' b = objs h b)
                \<and> (\<forall>b. b \<noteq> n \<longrightarrow> key_at h' b = key_at h b \<and> value_at h' b = value_at h b)
                \<and> dom (objs h') = dom (objs h) - {n}
                \<and> freed h' = n # freed h \<and> brk h' = brk h)"
  using assms
proof (induction as arbitrary: c)
  case Nil
  then obtain ec where "objs h c = Some ec" "e_next ec = None"
    by (auto split: option.splits)
  then show ?case
    by (subst erase_loop.simps) (simp add: holder_def)
next
  case (Cons n bs)
  from Cons.prems(1) obtain ec en where
    ec: "objs h c = Some ec" "e_next ec = Some n" and
    en: "objs h n = Some en" "chain (objs h) (e_next en) bs"
    by (auto split: option.splits simp: chain_Some)
  have neq: "c \<noteq> n" "c \<notin> set bs" "n \<notin> set bs" "distinct bs"
    using Cons.prems(2) by auto
  show ?case
  proof (cases "e_key en = k")
    case True
    define h1 where "h1 = h\<lparr>objs := (objs h)(n := None), freed := n # freed h\<rparr>"
    define h2 where "h2 = h1\<lparr>objs := (objs h1)(c \<mapsto> ec\<lparr>e_next := e_next en\<rparr>)\<rparr>"
    have d: "delete_Entry h n = Inr h1"
      unfolding h1_def by (rule delete_live[OF en(1)])
    have c1: "objs h1 c = Some ec"
      using ec neq by (simp add: h1_def)
    have s: "store h1 c (\<lambda>e. e\<lparr>e_next := e_next en\<rparr>) = Inr h2"
      unfolding h2_def by (rule store_live[OF c1])
    have run: "erase_loop h c k = Some (Inr (True, h2))"
      using True by (subst erase_loop.simps) (simp add: ec en d s)
    have objs2: "objs h2 = (objs h)(n := None, c \<mapsto> ec\<lparr>e_next := e_next en\<rparr>)"
      by (simp add: h2_def h1_def)
    have "chain (objs h2) (e_next en) bs = chain (objs h) (e_next en) bs"
    proof (rule chain_cong)
      fix b assume "b \<in> set bs"
      with neq have "b \<noteq> n" "b \<noteq> c" by auto
      then show "map_option e_next (objs h2 b) = map_option e_next (objs h b)"
        by (simp add: objs2)
    qed
    then have "chain (objs h2) (Some c) (c # bs)"
      using en(2) by (simp add: objs2)
    moreover have "dom (objs h2) = dom (objs h) - {n}"
      using ec neq by (auto simp: objs2)
    moreover have "key_at h2 b = key_at h b \<and> value_at h2 b = value_at h b" if "b \<noteq> n" for b
      using that ec by (simp add: key_at_def value_at_def objs2)
    ultimately show ?thesis
      using True en(1) run
      by (simp add: holder_Cons key_at_def) (simp add: objs2 h2_def h1_def)
  next
    case False
    have rec: "erase_loop h c k = erase_loop h n k"
      using False by (subst erase_loop.simps) (simp add: ec en)
    have hold: "holder h (n # bs) k = holder h bs k"
      using False en(1) by (simp add: holder_Cons key_at_def)
    have chn: "chain (objs h) (Some n) (n # bs)"
      using en by simp
    have dn: "distinct (n # bs)"
      using neq by simp
    show ?thesis
    proof (cases "holder h bs k")
      case None
      with Cons.IH[OF chn dn] rec hold show ?thesis by simp
    next
      case (Some m)
      with Cons.IH[OF chn dn] obtain h' where h':
        "erase_loop h n k = Some (Inr (True, h'))"
        "chain (objs h') (Some n) (n # remove1 m bs)"
        "\<forall>b. b \<notin> set (n # bs) \<longrightarrow> objs h' b = objs h b"
        "\<forall>b. b \<noteq> m \<longrightarrow> key_at h' b = key_at h b \<and> value_at h' b = value_at h b"
        "dom (objs h') = dom (objs h) - {m}"
        "freed h' = m # freed h" "brk h' = brk h"
        by auto
      have "m \<in> set bs"
        using holder_Some_D[OF Some] by simp
      with neq have mn: "m \<noteq> n" by auto
      have "objs h' c = objs h c"
        using h'(3) neq by simp
      with h'(2) ec have "chain (objs h') (Some c) (c # n # remove1 m bs)"
        by simp
      with h' mn neq show ?thesis
        by (simp add: rec hold Some)
    qed
  qed
qed

lemma distinct_map_remove1: "distinct (map f xs) \<Longrightarrow> distinct (map f (remove1 a xs))"
proof (induction xs)
  case Nil
  then show ?case by simp
next
  case (Cons x xs)
  have "f ` set (remove1 a xs) \<subseteq> f ` set xs"
    using set_remove1_subset[of a xs] by blast
  with Cons show ?case by auto
qed

lemma valid_erase_step:
  assumes v: "valid t h ass"
    and il: "i < length (ht t)"
    and a: "a \<in> set (ass ! i)"
    and ok: "heap_ok h'"
    and shape: "htSize t' = htSize t" "ht_mask t' = ht_mask t" "length (ht t') = length (ht t)"
    and dom: "dom (objs h') = dom (objs h) - {a}"
    and keys: "\<And>b. b \<noteq> a \<Longrightarrow> key_at h' b = key_at h b"
    and ci: "chain (objs h') (ht t' ! i) (remove1 a (ass ! i))"
    and cj: "\<And>j. j < length (ht t) \<Longrightarrow> j \<noteq> i \<Longrightarrow> chain (objs h') (ht t' ! j) (ass ! j)"
  shows "valid t' h' (ass[i := remove1 a (ass ! i)])"
proof (rule validI)
  let ?ass = "ass[i := remove1 a (ass ! i)]"
  note sh = valid_shape[OF v]
  have dist: "distinct (ass ! i)"
    using valid_distinct_keys[OF v il] by (rule distinct_map_D)
  have a_only: "j = i" if "j < length (ht t)" "a \<in> set (ass ! j)" for j
    using valid_disjoint[OF v that(1) il that(2) a] .
  have idx: "index t' = index t"
    using shape by (auto simp: index_def fun_eq_iff)
  have sub: "set (?ass ! j) = set (ass ! j) - {a}" if "j < length (ht t)" for j
  proof (cases "j = i")
    case True
    with il sh dist show ?thesis by (simp add: set_remove1_eq)
  next
    case False
    with a_only[OF that] have "a \<notin> set (ass ! j)" by blast
    with False show ?thesis by simp
  qed
  show "htSize t' \<noteq> 0" "ht_mask t' = htSize t' - 1" "length (ht t') = unat (htSize t')"
    "length ?ass = length (ht t')"
    using sh shape by simp_all
  show "heap_ok h'" by (rule ok)
  show "chain (objs h') (ht t' ! j) (?ass ! j)" if "j < length ?ass" for j
    using that ci cj[of j] sh by (cases "j = i") simp_all
  show "distinct (map (key_at h') (?ass ! j))" if "j < length ?ass" for j
  proof -
    have j: "j < length (ht t)" using that sh by simp
    have meq: "map (key_at h') (?ass ! j) = map (key_at h) (?ass ! j)"
    proof (rule map_cong[OF refl])
      fix x assume "x \<in> set (?ass ! j)"
      with sub[OF j] have "x \<noteq> a" by blast
      then show "key_at h' x = key_at h x" by (rule keys)
    qed
    have "distinct (map (key_at h) (?ass ! j))"
      using valid_distinct_keys[OF v j] il sh
      by (cases "j = i") (simp_all add: distinct_map_remove1)
    then show ?thesis unfolding meq .
  qed
  show "index t' (key_at h' b) = j" if "j < length ?ass" "b \<in> set (?ass ! j)" for j b
  proof -
    have j: "j < length (ht t)" using that sh by simp
    from that(2) sub[OF j] have b: "b \<in> set (ass ! j)" "b \<noteq> a" by auto
    from valid_placed[OF v j b(1)] keys[OF b(2)] idx show ?thesis by simp
  qed
  show "dom (objs h') = {b. \<exists>j < length ?ass. b \<in> set (?ass ! j)}"
  proof -
    have "{b. \<exists>j < length ?ass. b \<in> set (?ass ! j)} = {b. \<exists>j < length (ht t). b \<in> set (ass ! j)} - {a}"
      using sub sh by auto
    then show ?thesis using dom valid_dom[OF v] by simp
  qed
qed

lemma erase_absent:
  assumes v: "valid t h ass" and absent: "holder h (ass ! index t k) k = None"
  shows "erase t h k = Some (Inr (False, t, h))"
proof -
  define i where "i = index t k"
  have il: "i < length (ht t)"
    unfolding i_def by (rule valid_index[OF v])
  have bk: "bucket t (hashKey k AND ht_mask t) = Inr (ht t ! i)"
    unfolding i_def by (rule valid_bucket[OF v])
  have ch: "chain (objs h) (ht t ! i) (ass ! i)"
    by (rule valid_chain[OF v il])
  show ?thesis
  proof (cases "ht t ! i")
    case None
    then show ?thesis by (simp add: erase_def bk)
  next
    case (Some c)
    with ch obtain ec bs where c: "ass ! i = c # bs" "objs h c = Some ec"
      by (auto simp: chain_Some)
    have "key_at h c \<noteq> k" "holder h bs k = None"
      using absent c by (auto simp: i_def[symmetric] holder_Cons split: if_splits)
    moreover have "distinct (c # bs)"
      using valid_distinct_keys[OF v il] c distinct_map_D by metis
    moreover have "chain (objs h) (Some c) (c # bs)"
      using ch Some c by simp
    ultimately have "erase_loop h c k = Some (Inr (False, h))" "e_key ec \<noteq> k"
      using erase_loop_chain[of h c bs k] c by (auto simp: key_at_def)
    then show ?thesis
      by (simp add: erase_def bk Some c)
  qed
qed

lemma erase_present:
  assumes v: "valid t h ass" and present: "holder h (ass ! index t k) k = Some a"
  shows "\<exists>t' h'. erase t h k = Some (Inr (True, t', h'))
     \<and> valid t' h' (ass[index t k := remove1 a (ass ! index t k)])
     \<and> dom (objs h') = dom (objs h) - {a}
     \<and> (\<forall>b. b \<noteq> a \<longrightarrow> key_at h' b = key_at h b \<and> value_at h' b = value_at h b)
     \<and> freed h' = a # freed h
     \<and> htSize t' = htSize t \<and> ht_mask t' = ht_mask t"
proof -
  define i where "i = index t k"
  have il: "i < length (ht t)"
    unfolding i_def by (rule valid_index[OF v])
  have bk: "bucket t (hashKey k AND ht_mask t) = Inr (ht t ! i)"
    unfolding i_def by (rule valid_bucket[OF v])
  have ch: "chain (objs h) (ht t ! i) (ass ! i)"
    by (rule valid_chain[OF v il])
  from holder_Some_D[OF present] have a: "a \<in> set (ass ! i)" "key_at h a = k"
    by (auto simp: i_def)
  from a ch obtain c ec bs where c: "ht t ! i = Some c" "ass ! i = c # bs" "objs h c = Some ec"
    "chain (objs h) (e_next ec) bs"
    by (cases "ht t ! i") (auto simp: chain_Some)
  have dist: "distinct (c # bs)"
    using valid_distinct_keys[OF v il] c distinct_map_D by metis
  have other: "b \<notin> set (c # bs)" if "j < length (ht t)" "j \<noteq> i" "b \<in> set (ass ! j)" for j b
    using valid_disjoint[OF v that(1) il that(3)] that(2) c(2) by auto
  show ?thesis
  proof (cases "e_key ec = k")
    case True
    then have ac: "a = c"
      using present c by (simp add: i_def[symmetric] holder_Cons key_at_def)
    define t' where "t' = t\<lparr>ht := (ht t)[i := e_next ec]\<rparr>"
    define h' where "h' = h\<lparr>objs := (objs h)(c := None), freed := c # freed h\<rparr>"
    have sb: "set_bucket t (hashKey k AND ht_mask t) (e_next ec) = Inr t'"
      using il by (simp add: set_bucket_def t'_def i_def index_def)
    have d: "delete_Entry h c = Inr h'"
      unfolding h'_def by (rule delete_live[OF c(3)])
    have res: "erase t h k = Some (Inr (True, t', h'))"
      using True by (simp add: erase_def bk c sb d)
    have val: "valid t' h' (ass[i := remove1 a (ass ! i)])"
    proof (rule valid_erase_step[OF v il a(1)])
      show "heap_ok h'"
        unfolding h'_def by (rule heap_ok_delete[OF valid_heap_ok[OF v] c(3)])
      show "htSize t' = htSize t" "ht_mask t' = ht_mask t" "length (ht t') = length (ht t)"
        by (simp_all add: t'_def)
      show "dom (objs h') = dom (objs h) - {a}"
        by (auto simp: h'_def ac)
      show "key_at h' b = key_at h b" if "b \<noteq> a" for b
        using that by (simp add: key_at_def h'_def ac)
      show "chain (objs h') (ht t' ! i) (remove1 a (ass ! i))"
        using il dist c(4) by (simp add: t'_def c ac h'_def chain_upd_notin)
      show "chain (objs h') (ht t' ! j) (ass ! j)" if "j < length (ht t)" "j \<noteq> i" for j
      proof -
        have "c \<notin> set (ass ! j)" using other[OF that] by auto
        then show ?thesis
          using that valid_chain[OF v that(1)] by (simp add: t'_def h'_def chain_upd_notin)
      qed
    qed
    show ?thesis
      using res val unfolding i_def[symmetric]
      by (intro exI[of _ t'] exI[of _ h'])
         (auto simp: t'_def h'_def ac key_at_def value_at_def)
  next
    case False
    then have hb: "holder h bs k = Some a"
      using present c by (simp add: i_def[symmetric] holder_Cons key_at_def)
    have chc: "chain (objs h) (Some c) (c # bs)"
      using c by simp
    from erase_loop_chain[OF chc dist, of k] hb obtain h' where h':
      "erase_loop h c k = Some (Inr (True, h'))"
      "chain (objs h') (Some c) (c # remove1 a bs)"
      "\<forall>b. b \<notin> set (c # bs) \<longrightarrow> objs h' b = objs h b"
      "\<forall>b. b \<noteq> a \<longrightarrow> key_at h' b = key_at h b \<and> value_at h' b = value_at h b"
      "dom (objs h') = dom (objs h) - {a}"
      "freed h' = a # freed h" "brk h' = brk h"
      by auto
    have ac: "a \<noteq> c"
      using holder_Some_D[OF hb] dist by auto
    have res: "erase t h k = Some (Inr (True, t, h'))"
      using False by (simp add: erase_def bk c h')
    have val: "valid t h' (ass[i := remove1 a (ass ! i)])"
    proof (rule valid_erase_step[OF v il a(1)])
      show "heap_ok h'"
        using valid_heap_ok[OF v] h'(5,6,7) valid_live[OF v il a(1)]
        by (auto simp: heap_ok_def)
      show "htSize t = htSize t" "ht_mask t = ht_mask t" "length (ht t) = length (ht t)"
        by simp_all
      show "dom (objs h') = dom (objs h) - {a}" by (rule h'(5))
      show "key_at h' b = key_at h b" if "b \<noteq> a" for b
        using that h'(4) by simp
      show "chain (objs h') (ht t ! i) (remove1 a (ass ! i))"
        using h'(2) ac by (simp add: c)
      show "chain (objs h') (ht t ! j) (ass ! j)" if "j < length (ht t)" "j \<noteq> i" for j
      proof -
        have "chain (objs h') (ht t ! j) (ass ! j) = chain (objs h) (ht t ! j) (ass ! j)"
          using other[OF that] h'(3) by (intro chain_cong) simp
        then show ?thesis using valid_chain[OF v that(1)] by simp
      qed
    qed
    show ?thesis
      using res val h' unfolding i_def[symmetric]
      by (intro exI[of _ t] exI[of _ h']) simp
  qed
qed

section \<open>What \<open>lookup\<close> observes after \<open>insert\<close> and \<open>erase\<close>\<close>

lemma holder_cong:
  "(\<And>b. b \<in> set as \<Longrightarrow> key_at h' b = key_at h b) \<Longrightarrow> holder h' as k = holder h as k"
  by (induction as) (simp_all add: holder_def)

lemma holder_Nil [simp]: "holder h [] k = None"
  by (simp add: holder_def)

lemma holder_append:
  "holder h (as @ bs) k = (case holder h as k of None \<Rightarrow> holder h bs k | Some a \<Rightarrow> Some a)"
  by (induction as) (simp_all add: holder_def)

lemma holder_remove1:
  "key_at h a \<noteq> k \<Longrightarrow> holder h (remove1 a as) k = holder h as k"
  by (induction as) (auto simp: holder_def)

lemma holder_remove1_self:
  "distinct (map (key_at h) as) \<Longrightarrow> holder h as k = Some a \<Longrightarrow> holder h (remove1 a as) k = None"
proof -
  assume d: "distinct (map (key_at h) as)" and hd: "holder h as k = Some a"
  from holder_Some_D[OF hd] have a: "a \<in> set as" "key_at h a = k" by auto
  have "inj_on (key_at h) (set as)" "distinct as" using d by (simp_all add: distinct_map)
  then have "k \<notin> key_at h ` set (remove1 a as)"
    using a by (auto simp: inj_on_def)
  then show ?thesis by (simp add: holder_None_iff)
qed

lemma lookup_value_valid:
  assumes v: "valid t h ass"
  shows "lookup_value t h k = map_option (value_at h) (holder h (ass ! index t k) k)"
proof (cases "holder h (ass ! index t k) k")
  case None
  then show ?thesis by (simp add: lookup_value_def lookup_valid[OF v])
next
  case (Some a)
  from holder_Some_D[OF Some] valid_live[OF v valid_index[OF v]]
  obtain en where "objs h a = Some en" by blast
  with Some show ?thesis
    by (simp add: lookup_value_def lookup_valid[OF v] value_at_def)
qed

lemma index_shape: "ht_mask t' = ht_mask t \<Longrightarrow> index t' k = index t k"
  by (simp add: index_def)

lemma insert_kv_lookup:
  assumes v: "valid t h ass"
  shows "\<exists>b t' h' ass'. insert_kv t h k val = Some (Inr (b, t', h')) \<and> valid t' h' ass'
           \<and> (b \<longleftrightarrow> lookup t h k = Some (Inr None))
           \<and> lookup_value t' h' k = Some val
           \<and> (\<forall>k2. k2 \<noteq> k \<longrightarrow> lookup t' h' k2 = lookup t h k2
                    \<and> lookup_value t' h' k2 = lookup_value t h k2)"
proof (cases "holder h (ass ! index t k) k")
  case None
  define i where "i = index t k"
  have il: "i < length (ht t)" unfolding i_def by (rule valid_index[OF v])
  from insert_new[OF v None, of val] obtain a t' h' where r:
    "insert_kv t h k val = Some (Inr (True, t', h'))"
    "a \<notin> dom (objs h)"
    "valid t' h' (ass[i := ass ! i @ [a]])"
    "objs h' a = Some \<lparr>e_key = k, e_value = val, e_next = None\<rparr>"
    "\<forall>b. b \<noteq> a \<longrightarrow> key_at h' b = key_at h b \<and> value_at h' b = value_at h b"
    "ht_mask t' = ht_mask t"
    unfolding i_def by blast
  let ?ass = "ass[i := ass ! i @ [a]]"
  note v' = r(3)
  have la: "length ass = length (ht t)" by (rule valid_length[OF v])
  have a_notin: "a \<notin> set (ass ! j)" if "j < length (ht t)" for j
    using valid_live[OF v that] r(2) by blast
  have ka: "key_at h' a = k" "value_at h' a = val"
    using r(4) by (simp_all add: key_at_def value_at_def)
  have old: "holder h' (ass ! j) k2 = holder h (ass ! j) k2" if "j < length (ht t)" for j k2
    using a_notin[OF that] r(5) by (intro holder_cong) metis
  have look: "holder h' (?ass ! index t k2) k2 =
      (if k2 = k then Some a else holder h (ass ! index t k2) k2)" for k2
  proof (cases "index t k2 = i")
    case True
    show ?thesis
    proof (cases "k2 = k")
      case True
      with None il la old[OF il, of k] ka show ?thesis
        by (simp add: holder_append holder_Cons i_def)
    next
      case False
      with True il la old[OF il, of k2] ka show ?thesis
        by (simp add: holder_append holder_Cons split: option.splits)
    qed
  next
    case False
    then have "k2 \<noteq> k" by (auto simp: i_def)
    with False old[OF valid_index[OF v, of k2], of k2] show ?thesis by simp
  qed
  have lk: "lookup t' h' k2 = Some (Inr (if k2 = k then Some a else holder h (ass ! index t k2) k2))" for k2
    using lookup_valid[OF v', of k2] look[of k2] by (simp add: index_shape[OF r(6)])
  have lv: "lookup_value t' h' k2 = (if k2 = k then Some val else lookup_value t h k2)" for k2
  proof (cases "k2 = k")
    case True
    with lk[of k2] r(4) show ?thesis by (simp add: lookup_value_def)
  next
    case False
    have "value_at h' x = value_at h x" if "holder h (ass ! index t k2) k2 = Some x" for x
    proof -
      from holder_Some_D[OF that] a_notin[OF valid_index[OF v]] have "x \<noteq> a" by blast
      with r(5) show ?thesis by simp
    qed
    with False show ?thesis
      using lookup_value_valid[OF v', of k2] look[of k2] lookup_value_valid[OF v, of k2]
      by (cases "holder h (ass ! index t k2) k2") (simp_all add: index_shape[OF r(6)])
  qed
  show ?thesis
    using r(1) v' lk lv lookup_valid[OF v] None
    by (intro exI[of _ True] exI[of _ t'] exI[of _ h'] exI[of _ ?ass]) simp
next
  case (Some a)
  from insert_update[OF v Some, of val] obtain en where r:
    "objs h a = Some en" "e_key en = k"
    "insert_kv t h k val = Some (Inr (False, t, h\<lparr>objs := (objs h)(a \<mapsto> en\<lparr>e_value := val\<rparr>)\<rparr>))"
    "valid t (h\<lparr>objs := (objs h)(a \<mapsto> en\<lparr>e_value := val\<rparr>)\<rparr>) ass"
    by blast
  define h' where "h' = h\<lparr>objs := (objs h)(a \<mapsto> en\<lparr>e_value := val\<rparr>)\<rparr>"
  note v' = r(4)[folded h'_def]
  have keys: "key_at h' b = key_at h b" for b
    using r(1) by (simp add: key_at_def h'_def)
  have hold: "holder h' as k2 = holder h as k2" for as k2
    by (rule holder_cong) (rule keys)
  have lk: "lookup t h' k2 = lookup t h k2" for k2
    by (simp add: lookup_valid[OF v] lookup_valid[OF v'] hold)
  have va: "value_at h' b = (if b = a then val else value_at h b)" for b
    by (simp add: value_at_def h'_def)
  have lv: "lookup_value t h' k2 = (if k2 = k then Some val else lookup_value t h k2)" for k2
  proof (cases "k2 = k")
    case True
    with Some show ?thesis
      by (simp add: lookup_value_valid[OF v'] hold va)
  next
    case False
    have "x \<noteq> a" if "holder h (ass ! index t k2) k2 = Some x" for x
      using holder_Some_D[OF that] r(1,2) False by (auto simp: key_at_def)
    with False show ?thesis
      by (cases "holder h (ass ! index t k2) k2")
         (simp_all add: lookup_value_valid[OF v'] lookup_value_valid[OF v] hold va)
  qed
  show ?thesis
    using r(3) v' lk lv lookup_valid[OF v, of k] Some unfolding h'_def[symmetric]
    by (intro exI[of _ False] exI[of _ t] exI[of _ h'] exI[of _ ass]) simp
qed

lemma erase_lookup:
  assumes v: "valid t h ass"
  shows "\<exists>b t' h' ass'. erase t h k = Some (Inr (b, t', h')) \<and> valid t' h' ass'
           \<and> (b \<longleftrightarrow> (\<exists>a. lookup t h k = Some (Inr (Some a))))
           \<and> (\<not> b \<longrightarrow> t' = t \<and> h' = h)
           \<and> lookup t' h' k = Some (Inr None)
           \<and> (\<forall>k2. k2 \<noteq> k \<longrightarrow> lookup t' h' k2 = lookup t h k2
                    \<and> lookup_value t' h' k2 = lookup_value t h k2)"
proof (cases "holder h (ass ! index t k) k")
  case None
  from erase_absent[OF v None] lookup_valid[OF v, of k] None v show ?thesis
    by (intro exI[of _ False] exI[of _ t] exI[of _ h] exI[of _ ass]) simp
next
  case (Some a)
  define i where "i = index t k"
  have il: "i < length (ht t)" unfolding i_def by (rule valid_index[OF v])
  from erase_present[OF v Some] obtain t' h' where r:
    "erase t h k = Some (Inr (True, t', h'))"
    "valid t' h' (ass[i := remove1 a (ass ! i)])"
    "\<forall>b. b \<noteq> a \<longrightarrow> key_at h' b = key_at h b \<and> value_at h' b = value_at h b"
    "ht_mask t' = ht_mask t"
    unfolding i_def by blast
  let ?ass = "ass[i := remove1 a (ass ! i)]"
  note v' = r(2)
  have la: "length ass = length (ht t)" by (rule valid_length[OF v])
  from holder_Some_D[OF Some] have a: "a \<in> set (ass ! i)" "key_at h a = k"
    by (simp_all add: i_def)
  have dk: "distinct (map (key_at h) (ass ! i))" by (rule valid_distinct_keys[OF v il])
  then have di: "distinct (ass ! i)" by (rule distinct_map_D)
  have a_notin: "a \<notin> set (?ass ! j)" if "j < length (ht t)" for j
  proof (cases "j = i")
    case True
    with il la di show ?thesis by simp
  next
    case False
    with valid_disjoint[OF v that il _ a(1)] show ?thesis by auto
  qed
  have new: "holder h' (?ass ! j) k2 = holder h (?ass ! j) k2" if "j < length (ht t)" for j k2
    using a_notin[OF that] r(3) by (intro holder_cong) metis
  have look: "holder h' (?ass ! index t k2) k2 =
      (if k2 = k then None else holder h (ass ! index t k2) k2)" for k2
  proof (cases "k2 = k")
    case True
    with new[OF il, of k] il la holder_remove1_self[OF dk Some[folded i_def]] show ?thesis
      by (simp add: i_def)
  next
    case False
    then have "holder h (?ass ! index t k2) k2 = holder h (ass ! index t k2) k2"
      using il la a(2) by (cases "index t k2 = i") (simp_all add: holder_remove1)
    with False new[OF valid_index[OF v, of k2], of k2] show ?thesis by simp
  qed
  have lk: "lookup t' h' k2 = Some (Inr (if k2 = k then None else holder h (ass ! index t k2) k2))" for k2
    using lookup_valid[OF v', of k2] look[of k2] by (simp add: index_shape[OF r(4)])
  have lv: "lookup_value t' h' k2 = lookup_value t h k2" if "k2 \<noteq> k" for k2
  proof -
    have "value_at h' x = value_at h x" if "holder h (ass ! index t k2) k2 = Some x" for x
    proof -
      from holder_Some_D[OF that] a(2) \<open>k2 \<noteq> k\<close> have "x \<noteq> a" by auto
      with r(3) show ?thesis by simp
    qed
    with that show ?thesis
      using lookup_value_valid[OF v', of k2] look[of k2] lookup_value_valid[OF v, of k2]
      by (cases "holder h (ass ! index t k2) k2") (simp_all add: index_shape[OF r(4)])
  qed
  show ?thesis
    using r(1) v' lk lv lookup_valid[OF v] Some
    by (intro exI[of _ True] exI[of _ t'] exI[of _ h'] exI[of _ ?ass]) simp
qed

lemma step_valid:
  assumes "valid t h ass"
  shows "\<exists>b t' h' ass'. step c t h = Some (Inr (b, t', h')) \<and> valid t' h' ass'"
proof (cases c)
  case (Insert k val)
  with insert_kv_lookup[OF assms, of k val] show ?thesis by auto
next
  case (Erase k)
  with erase_lookup[OF assms, of k] show ?thesis by auto
qed

lemma run_valid:
  "valid t h ass \<Longrightarrow> \<exists>t' h' ass'. run cs t h = Some (Inr (t', h')) \<and> valid t' h' ass'"
proof (induction cs arbitrary: t h ass)
  case Nil
  then show ?case by auto
next
  case (Cons c cs)
  from step_valid[OF Cons.prems, of c] obtain b t1 h1 ass1 where
    s: "step c t h = Some (Inr (b, t1, h1))" "valid t1 h1 ass1" by blast
  from Cons.IH[OF s(2)] s(1) show ?case by simp
qed

section \<open>Freshly constructed tables\<close>

lemma allocZeros_pow2:
  assumes "n \<le> 60" and "8 * 2 ^ n \<le> avail"
  shows "allocZeros avail (8 * 2 ^ n) = replicate (2 ^ n) None"
proof -
  have "(8 :: u64) * 2 ^ n = 2 ^ (n + 3)" by (simp add: power_add)
  moreover have "unat ((2 :: u64) ^ (n + 3)) = 2 ^ (n + 3)"
    using assms(1) by (intro unat_2p) simp
  moreover have "(2 :: u64) ^ (n + 3) \<noteq> 0"
    using assms(1) by simp
  moreover have "(2 :: nat) ^ (n + 3) = 8 * 2 ^ n" by (simp add: power_add)
  ultimately show ?thesis using assms(2) by (simp add: allocZeros_def)
qed

lemma allocZeros_refused:
  assumes "n \<le> 60" and "avail < 8 * 2 ^ n"
  shows "allocZeros avail (8 * 2 ^ n) = []"
proof -
  have "(8 :: u64) * 2 ^ n = 2 ^ (n + 3)" by (simp add: power_add)
  moreover have "unat ((2 :: u64) ^ (n + 3)) = 2 ^ (n + 3)"
    using assms(1) by (intro unat_2p) simp
  moreover have "(2 :: nat) ^ (n + 3) = 8 * 2 ^ n" by (simp add: power_add)
  ultimately show ?thesis using assms(2) by (simp add: allocZeros_def)
qed

lemma allocZeros_wrap:
  assumes "61 \<le> n"
  shows "allocZeros avail (8 * 2 ^ n) = []"
proof -
  have "(8 :: u64) * 2 ^ n = 2 ^ (n + 3)" by (simp add: power_add)
  moreover have "(2 :: u64) ^ (n + 3) = 0" using assms by simp
  ultimately show ?thesis by (simp add: allocZeros_def)
qed

lemma heap_ok_empty: "heap_ok empty_heap"
  by (simp add: heap_ok_def empty_heap_def)

lemma valid_fresh:
  assumes "n < 64"
  shows "valid \<lparr>htSize = 2 ^ n, ht_mask = 2 ^ n - 1, ht = replicate (2 ^ n) None\<rparr> empty_heap
           (replicate (2 ^ n) [])"
  using assms by (intro validI) (simp_all add: unat_2p heap_ok_empty, simp add: empty_heap_def)

lemma ctor_cases:
  assumes "1 \<le> unat s" and "unat s < 2 ^ 63" and "Hashtable_ctor avail s = Inr t"
  shows "\<exists>n. 0 < n \<and> n < 64 \<and> htSize t = 2 ^ n \<and> ht_mask t = 2 ^ n - 1
          \<and> (if unat s < 2 ^ 60 \<and> 8 * unat (htSize t) \<le> avail
              then ht t = replicate (2 ^ n) None else ht t = [])"
proof -
  have "s \<noteq> 0" using assms(1) by (auto simp: unat_eq_0)
  from capacity_bit_length[OF this assms(2), of avail] assms(3) obtain n where n: "0 < n" "n < 64"
    "t = \<lparr>htSize = 2 ^ n, ht_mask = 2 ^ n - 1, ht = allocZeros avail (8 * 2 ^ n)\<rparr>"
    "2 ^ (n - 1) \<le> unat s" "unat s < 2 ^ n" by auto
  have hs: "unat (htSize t) = 2 ^ n"
    using n by (simp add: unat_2p)
  show ?thesis
  proof (cases "unat s < 2 ^ 60")
    case True
    with n(4) have "(2::nat) ^ (n - 1) < 2 ^ 60" by (rule le_less_trans)
    then have "n - 1 < 60" using power_less_imp_less_exp[of 2 "n - 1" 60] by simp
    then have n60: "n \<le> 60" by simp
    show ?thesis
    proof (cases "8 * 2 ^ n \<le> avail")
      case True
      with n n60 \<open>unat s < 2 ^ 60\<close> hs show ?thesis
        by (intro exI[of _ n]) (simp add: allocZeros_pow2)
    next
      case False
      then have "avail < 8 * 2 ^ n" by simp
      with n n60 \<open>unat s < 2 ^ 60\<close> hs show ?thesis
        by (intro exI[of _ n]) (simp add: allocZeros_refused)
    qed
  next
    case False
    then have "(2::nat) ^ 60 < 2 ^ n" using n(5) by simp
    then have "60 < n" using power_less_imp_less_exp[of 2 60 n] by simp
    then have "61 \<le> n" by simp
    with n False show ?thesis by (intro exI[of _ n]) (simp add: allocZeros_wrap)
  qed
qed

lemma valid_ctor:
  assumes "1 \<le> unat s" and "unat s < 2 ^ 60" and "8 * unat (htSize t) \<le> avail"
    and "Hashtable_ctor avail s = Inr t"
  shows "valid t empty_heap (replicate (unat (htSize t)) [])"
proof -
  have "unat s < 2 ^ 63" using assms(2) by simp
  from ctor_cases[OF assms(1) this assms(4)] assms(2,3) obtain n where n: "n < 64"
    "htSize t = 2 ^ n" "ht_mask t = 2 ^ n - 1" "ht t = replicate (2 ^ n) None" by auto
  then have "t = \<lparr>htSize = 2 ^ n, ht_mask = 2 ^ n - 1, ht = replicate (2 ^ n) None\<rparr>"
    by (cases t) simp
  with valid_fresh[OF n(1)] n show ?thesis by (simp add: unat_2p)
qed

section \<open>A concrete table\<close>

lemma valid_small: "valid \<lparr>htSize = 2, ht_mask = 1, ht = [None, None]\<rparr> empty_heap [[], []]"
  using valid_fresh[of 1] by (simp add: numeral_2_eq_2)

lemma index_table2_0: "index table2 0 = 0"
  unfolding table2_def by (simp add: index_def hashKey_def)

lemma index_table2_1: "index table2 1 = 0"
  unfolding table2_def by (simp add: index_def hashKey_def)

lemmas index_table2 = index_table2_0 index_table2_1

lemma valid_table2: "valid table2 heap2 [[0, 1], []]"
  by (auto simp: valid_def heap_ok_def key_at_def index_table2[unfolded table2_def] less_Suc_eq
      dom_def table2_def heap2_def)

lemma lookup_table2:
  "lookup table2 heap2 0 = Some (Inr (Some 0))"
  "lookup table2 heap2 1 = Some (Inr (Some 1))"
  "lookup table2 heap2 4 = Some (Inr None)"
  by (simp_all add: lookup_def bucket_def hashKey_def lookup_loop.simps table2_def heap2_def)

lemma ctor_1: "Hashtable_ctor (2 ^ 47) 1 = Inr \<lparr>htSize = 2, ht_mask = 1, ht = [None, None]\<rparr>"
proof -
  have "replicate 2 None = [None, None :: ptr]"
    by (simp add: numeral_2_eq_2)
  then show ?thesis
    by (simp add: Hashtable_ctor_def builtin_clzl_def allocZeros_def clz_1)
qed

lemma reach_table2:
  "run [Insert 0 42, Insert 1 7] \<lparr>htSize = 2, ht_mask = 1, ht = [None, None]\<rparr> empty_heap
     = Some (Inr (table2, heap2))"
  by (simp add: insert_kv_def lookup_def bucket_def set_bucket_def hashKey_def lookup_loop.simps
      tail_loop.simps new_Entry_def store_def init_new_def empty_heap_def table2_def heap2_def fun_eq_iff)

lemma index_table2_2: "index table2 2 = 0"
  unfolding table2_def by (simp add: index_def hashKey_def)

lemma lookup_table2_2: "lookup table2 heap2 2 = Some (Inr None)"
  by (simp add: lookup_def bucket_def hashKey_def lookup_loop.simps table2_def heap2_def)

lemma ordered_table2: "ordered table2 heap2 [[0, 1], []] [0, 1]"
  by (auto simp: ordered_def less_Suc_eq index_table2 key_at_def heap2_def)

section \<open>Properties of the operations\<close>

lemma step_keeps:
  assumes v: "valid t h ass" and k: "keeps k val c" and l: "lookup_value t h k = Some val"
  shows "\<exists>b t' h' ass'. step c t h = Some (Inr (b, t', h')) \<and> valid t' h' ass'
           \<and> lookup_value t' h' k = Some val"
proof (cases c)
  case (Insert k' v')
  from insert_kv_lookup[OF v, of k' v'] obtain b t' h' ass' where r:
    "insert_kv t h k' v' = Some (Inr (b, t', h'))" "valid t' h' ass'"
    "lookup_value t' h' k' = Some v'"
    "\<forall>k2. k2 \<noteq> k' \<longrightarrow> lookup_value t' h' k2 = lookup_value t h k2"
    by blast
  have "lookup_value t' h' k = Some val"
    using r(3,4) k l Insert by (cases "k' = k") (auto simp: keeps_def)
  with r Insert show ?thesis by auto
next
  case (Erase k')
  from erase_lookup[OF v, of k'] obtain b t' h' ass' where r:
    "erase t h k' = Some (Inr (b, t', h'))" "valid t' h' ass'"
    "\<forall>k2. k2 \<noteq> k' \<longrightarrow> lookup_value t' h' k2 = lookup_value t h k2"
    by blast
  have "lookup_value t' h' k = Some val"
    using r(3) k l Erase by (auto simp: keeps_def)
  with r Erase show ?thesis by auto
qed

lemma run_keeps:
  assumes "valid t h ass" and "\<forall>c \<in> set cs. keeps k val c" and "lookup_value t h k = Some val"
  shows "\<exists>t' h'. run cs t h = Some (Inr (t', h')) \<and> lookup_value t' h' k = Some val"
  using assms
proof (induction cs arbitrary: t h ass)
  case Nil
  then show ?case by simp
next
  case (Cons c cs)
  from step_keeps[OF Cons.prems(1) _ Cons.prems(3), of c] Cons.prems(2)
  obtain b t1 h1 ass1 where s: "step c t h = Some (Inr (b, t1, h1))" "valid t1 h1 ass1"
    "lookup_value t1 h1 k = Some val" by auto
  from Cons.IH[OF s(2) _ s(3)] Cons.prems(2) s(1) show ?case by simp
qed

text \<open>
  Claim C3.  On a well-formed table, after \<open>insert(k, v)\<close> a lookup of \<open>k\<close> returns an
  entry whose value is \<open>v\<close>, and it still does after any sequence of further calls
  none of which erases \<open>k\<close> or inserts \<open>k\<close> with another value.  Every call of the
  sequence returns, without undefined behaviour.
\<close>

theorem insert_then_lookup:
  assumes "valid t h ass" and "list_all (keeps k v) cs"
  shows "\<exists>t' h'. run (Insert k v # cs) t h = Some (Inr (t', h'))
           \<and> lookup_value t' h' k = Some v"
proof -
  from insert_kv_lookup[OF assms(1), of k v] obtain b t1 h1 ass1 where r:
    "insert_kv t h k v = Some (Inr (b, t1, h1))" "valid t1 h1 ass1"
    "lookup_value t1 h1 k = Some v" by blast
  have "\<forall>c \<in> set cs. keeps k v c"
    using assms(2) by (simp add: list_all_iff)
  from run_keeps[OF r(2) this r(3)] r(1) show ?thesis by simp
qed

theorem insert_then_lookup_witness:
  "valid \<lparr>htSize = 2, ht_mask = 1, ht = [None, None]\<rparr> empty_heap [[], []]
   \<and> list_all (keeps 0 7) [Insert 1 5, Erase 2, Insert 0 7, Erase 1]
   \<and> (\<exists>t' h'. run (Insert 0 7 # [Insert 1 5, Erase 2, Insert 0 7, Erase 1])
                  \<lparr>htSize = 2, ht_mask = 1, ht = [None, None]\<rparr> empty_heap = Some (Inr (t', h'))
               \<and> lookup_value t' h' 0 = Some 7)"
proof -
  have k: "list_all (keeps 0 7) [Insert 1 5, Erase 2, Insert 0 7, Erase 1]"
    by (simp add: keeps_def)
  from insert_then_lookup[OF valid_small k] valid_small k show ?thesis by blast
qed

text \<open>
  Claim C5.  On a well-formed table \<open>erase(k)\<close> returns true exactly when \<open>k\<close> is
  present.  When it returns false, table and free store are unchanged.  When it returns
  true, erasing \<open>k\<close> again at once returns false and changes nothing.
\<close>

theorem erase_result:
  assumes "valid t h ass"
  shows "\<exists>b t' h'. erase t h k = Some (Inr (b, t', h'))
           \<and> (b \<longleftrightarrow> (\<exists>e. lookup t h k = Some (Inr (Some e))))
           \<and> (\<not> b \<longrightarrow> t' = t \<and> h' = h)
           \<and> (b \<longrightarrow> erase t' h' k = Some (Inr (False, t', h')))"
proof -
  from erase_lookup[OF assms, of k] obtain b t' h' ass' where r:
    "erase t h k = Some (Inr (b, t', h'))" "valid t' h' ass'"
    "b \<longleftrightarrow> (\<exists>e. lookup t h k = Some (Inr (Some e)))"
    "\<not> b \<longrightarrow> t' = t \<and> h' = h"
    "lookup t' h' k = Some (Inr None)"
    by blast
  from erase_lookup[OF r(2), of k] r(5) have "erase t' h' k = Some (Inr (False, t', h'))"
    by auto
  with r show ?thesis by blast
qed

theorem erase_result_witness:
  "valid table2 heap2 [[0, 1], []]
   \<and> (\<exists>b t' h'. erase table2 heap2 1 = Some (Inr (b, t', h')) \<and> b
          \<and> erase t' h' 1 = Some (Inr (False, t', h')))
   \<and> erase table2 heap2 4 = Some (Inr (False, table2, heap2))"
  using erase_result[OF valid_table2, of 1] erase_result[OF valid_table2, of 4]
    valid_table2 lookup_table2
  by auto

text \<open>
  Claim C6.  For distinct keys \<open>k1\<close> and \<open>k2\<close> with \<open>k2\<close> present, \<open>erase(k1)\<close> leaves
  the result of \<open>lookup(k2)\<close> as it was: the same entry, with the same value.  Nothing is
  assumed about the buckets of the two keys, so they may share a chain.
\<close>

theorem erase_other_key:
  assumes "valid t h ass" and "k1 \<noteq> k2" and "lookup t h k2 = Some (Inr (Some e))"
  shows "\<exists>b t' h' v. erase t h k1 = Some (Inr (b, t', h'))
           \<and> lookup t' h' k2 = Some (Inr (Some e))
           \<and> lookup_value t h k2 = Some v \<and> lookup_value t' h' k2 = Some v"
proof -
  from erase_lookup[OF assms(1), of k1] assms(2) obtain b t' h' where r:
    "erase t h k1 = Some (Inr (b, t', h'))"
    "lookup t' h' k2 = lookup t h k2" "lookup_value t' h' k2 = lookup_value t h k2"
    by metis
  have "holder h (ass ! index t k2) k2 = Some e"
    using assms(3) lookup_valid[OF assms(1), of k2] by simp
  then have "lookup_value t h k2 = Some (value_at h e)"
    by (simp add: lookup_value_valid[OF assms(1)])
  with r assms(3) show ?thesis by simp
qed

theorem erase_other_key_witness:
  "valid table2 heap2 [[0, 1], []] \<and> (0 :: u64) \<noteq> 1
   \<and> lookup table2 heap2 1 = Some (Inr (Some 1))
   \<and> index table2 0 = index table2 1
   \<and> (\<exists>b t' h' v. erase table2 heap2 0 = Some (Inr (b, t', h'))
          \<and> lookup t' h' 1 = Some (Inr (Some 1))
          \<and> lookup_value table2 heap2 1 = Some v \<and> lookup_value t' h' 1 = Some v)"
proof -
  have ne: "(0 :: u64) \<noteq> 1" by simp
  from erase_other_key[OF valid_table2 ne lookup_table2(2)] valid_table2 lookup_table2 index_table2
  show ?thesis by simp
qed


lemma valid_unique_keys:
  assumes v: "valid t h ass"
  shows "unique_keys h"
  unfolding unique_keys_def
proof (intro allI impI, elim conjE)
  fix a b ea eb
  assume ab: "objs h a = Some ea" "objs h b = Some eb" and k: "e_key ea = e_key eb"
  from ab valid_dom[OF v] obtain i j where
    i: "i < length (ht t)" "a \<in> set (ass ! i)" and j: "j < length (ht t)" "b \<in> set (ass ! j)"
    by (auto simp: dom_def set_eq_iff) blast
  have kk: "key_at h a = key_at h b" using ab k by (simp add: key_at_def)
  with valid_placed[OF v i] valid_placed[OF v j] have "i = j" by simp
  with i j valid_distinct_keys[OF v i(1)] kk show "a = b"
    by (auto simp: distinct_map inj_on_def)
qed






lemma ctor_Inr_range:
  assumes "Hashtable_ctor avail s = Inr t"
  shows "1 \<le> unat s \<and> unat s < 2 ^ 63"
proof -
  have nz: "s \<noteq> 0"
    using assms by (auto simp: Hashtable_ctor_def builtin_clzl_def)
  have "unat s < 2 ^ 63"
  proof (rule ccontr)
    assume "\<not> unat s < 2 ^ 63"
    then have "2 ^ 63 \<le> unat s" by simp
    moreover have "unat s < 2 ^ Suc 63" using unsigned_less[of s] by simp
    ultimately have "bit s 63" using bit_top_word[of s 63] by simp
    then have "clz_from (Suc 63) s = 0" by (simp only: clz_from.simps if_True)
    moreover have "(64 :: nat) = Suc 63" by simp
    ultimately have "clz_from 64 s = 0" by (simp only:)
    with nz assms show False
      by (simp add: Hashtable_ctor_def builtin_clzl_def)
  qed
  with nz show ?thesis by (simp add: unat_gt_0 Suc_le_eq)
qed

lemma step_no_buckets:
  assumes "ht t = []"
  shows "step c t h = Some (Inl OutOfBounds)"
  using assms by (cases c) (simp_all add: insert_kv_def lookup_def erase_def bucket_def)

text \<open>
  Claim C7.  In every state reached from a freshly constructed table by a sequence of
  \<open>insert\<close> and \<open>erase\<close> calls, no two live entries carry the same key.
\<close>

theorem reachable_unique_keys:
  assumes "Hashtable_ctor avail s = Inr t0" and "run cs t0 empty_heap = Some (Inr (t, h))"
  shows "unique_keys h"
proof -
  from ctor_Inr_range[OF assms(1)] have s: "1 \<le> unat s" "unat s < 2 ^ 63" by auto
  show ?thesis
  proof (cases "unat s < 2 ^ 60 \<and> 8 * unat (htSize t0) \<le> avail")
    case True
    then have m: "unat s < 2 ^ 60" "8 * unat (htSize t0) \<le> avail" by simp_all
    from run_valid[OF valid_ctor[OF s(1) m assms(1)], of cs] assms(2)
    obtain ass where "valid t h ass" by auto
    then show ?thesis by (rule valid_unique_keys)
  next
    case False
    with ctor_cases[OF s assms(1)] have e: "ht t0 = []" by auto
    have "cs = []"
    proof (cases cs)
      case (Cons c cs')
      with assms(2) step_no_buckets[OF e, of c empty_heap] show ?thesis by simp
    qed simp
    with assms(2) show ?thesis by (auto simp: unique_keys_def empty_heap_def)
  qed
qed

theorem reachable_unique_keys_witness:
  "Hashtable_ctor (2 ^ 47) 1 = Inr \<lparr>htSize = 2, ht_mask = 1, ht = [None, None]\<rparr>
   \<and> run [Insert 0 42, Insert 1 7] \<lparr>htSize = 2, ht_mask = 1, ht = [None, None]\<rparr> empty_heap
       = Some (Inr (table2, heap2))
   \<and> unique_keys heap2"
  using reachable_unique_keys[OF ctor_1 reach_table2] ctor_1 reach_table2 by simp

lemma step_valid_shape:
  assumes v: "valid t h ass"
  shows "\<exists>b t' h' ass'. step c t h = Some (Inr (b, t', h')) \<and> valid t' h' ass'
           \<and> htSize t' = htSize t \<and> ht_mask t' = ht_mask t"
proof (cases c)
  case (Insert k val)
  show ?thesis
  proof (cases "holder h (ass ! index t k) k")
    case None
    from insert_new[OF v None, of val] Insert show ?thesis by auto
  next
    case (Some a)
    from insert_update[OF v Some, of val] Insert show ?thesis by auto
  qed
next
  case (Erase k)
  show ?thesis
  proof (cases "holder h (ass ! index t k) k")
    case None
    from erase_absent[OF v None] Erase v show ?thesis by auto
  next
    case (Some a)
    from erase_present[OF v Some] Erase show ?thesis by auto
  qed
qed

lemma run_valid_shape:
  "valid t h ass \<Longrightarrow>
   \<exists>t' h' ass'. run cs t h = Some (Inr (t', h')) \<and> valid t' h' ass'
     \<and> htSize t' = htSize t \<and> ht_mask t' = ht_mask t"
proof (induction cs arbitrary: t h ass)
  case Nil
  then show ?case by auto
next
  case (Cons c cs)
  from step_valid_shape[OF Cons.prems, of c] obtain b t1 h1 ass1 where
    s: "step c t h = Some (Inr (b, t1, h1))" "valid t1 h1 ass1"
    "htSize t1 = htSize t" "ht_mask t1 = ht_mask t" by blast
  from Cons.IH[OF s(2)] s show ?case by simp
qed

text \<open>
  Claim C10, as the code has it.  For a table constructed with requested size \<open>s\<close>,
  \<open>1 \<le> s < 2^63\<close>, and every key \<open>k\<close>, the index \<open>hashKey(k) & mask\<close> is below
  \<open>htSize\<close>, with \<open>mask = htSize - 1\<close> and \<open>htSize\<close> a power of two.  The bucket access
  at that index is within the array exactly when the constructor's \<open>mmap\<close> succeeded:
  when \<open>s < 2^60\<close>, so that the byte count \<open>sizeof(uint64_t) * htSize\<close> does not wrap, and
  the system grants that many bytes.  Then the array has \<open>htSize\<close> slots in every state
  reached by \<open>insert\<close> and \<open>erase\<close> calls.  Otherwise nothing is mapped, the constructor
  does not notice, and the bucket access of \<open>lookup\<close>, \<open>insert\<close> and \<open>erase\<close> is outside
  the array.
\<close>

theorem bucket_index_in_bounds:
  assumes "1 \<le> unat s" and "unat s < 2 ^ 63" and "Hashtable_ctor avail s = Inr t"
  shows "unat (hashKey k AND ht_mask t) < unat (htSize t)
         \<and> ht_mask t = htSize t - 1 \<and> is_pow2 (unat (htSize t))
         \<and> (unat s < 2 ^ 60 \<and> 8 * unat (htSize t) \<le> avail \<longrightarrow>
              (\<exists>t' h'. run cs t empty_heap = Some (Inr (t', h'))
                 \<and> htSize t' = htSize t \<and> ht_mask t' = ht_mask t
                 \<and> length (ht t') = unat (htSize t')
                 \<and> unat (hashKey k AND ht_mask t') < length (ht t')
                 \<and> bucket t' (hashKey k AND ht_mask t')
                     = Inr (ht t' ! unat (hashKey k AND ht_mask t'))))
         \<and> (\<not> (unat s < 2 ^ 60 \<and> 8 * unat (htSize t) \<le> avail) \<longrightarrow>
              ht t = [] \<and> lookup t h k = Some (Inl OutOfBounds)
              \<and> insert_kv t h k v = Some (Inl OutOfBounds)
              \<and> erase t h k = Some (Inl OutOfBounds))"
proof -
  from ctor_cases[OF assms] obtain n where n: "n < 64" "htSize t = 2 ^ n" "ht_mask t = 2 ^ n - 1"
    and arr: "if unat s < 2 ^ 60 \<and> 8 * unat (htSize t) \<le> avail
              then ht t = replicate (2 ^ n) None else ht t = []"
    by auto
  have nz: "htSize t \<noteq> 0" using n by simp
  have m: "ht_mask t = htSize t - 1" using n by simp
  have "unat (hashKey k AND ht_mask t) < unat (htSize t)"
    unfolding m by (rule and_mask_less[OF nz])
  moreover have "is_pow2 (unat (htSize t))"
    using n by (auto simp: is_pow2_def unat_2p)
  moreover have "\<exists>t' h'. run cs t empty_heap = Some (Inr (t', h'))
                 \<and> htSize t' = htSize t \<and> ht_mask t' = ht_mask t
                 \<and> length (ht t') = unat (htSize t')
                 \<and> unat (hashKey k AND ht_mask t') < length (ht t')
                 \<and> bucket t' (hashKey k AND ht_mask t')
                     = Inr (ht t' ! unat (hashKey k AND ht_mask t'))"
    if "unat s < 2 ^ 60 \<and> 8 * unat (htSize t) \<le> avail"
  proof -
    from that have g: "unat s < 2 ^ 60" "8 * unat (htSize t) \<le> avail" by simp_all
    from run_valid_shape[OF valid_ctor[OF assms(1) g assms(3)], of cs]
    obtain t' h' ass' where r: "run cs t empty_heap = Some (Inr (t', h'))" "valid t' h' ass'"
      "htSize t' = htSize t" "ht_mask t' = ht_mask t" by blast
    from valid_shape[OF r(2)] valid_index[OF r(2), of k] valid_bucket[OF r(2), of k] r
    show ?thesis by (simp add: index_def)
  qed
  moreover have "ht t = [] \<and> lookup t h k = Some (Inl OutOfBounds)
              \<and> insert_kv t h k v = Some (Inl OutOfBounds)
              \<and> erase t h k = Some (Inl OutOfBounds)"
    if "\<not> (unat s < 2 ^ 60 \<and> 8 * unat (htSize t) \<le> avail)"
  proof -
    from that arr have "ht t = []" by simp
    then show ?thesis
      by (simp add: lookup_def insert_kv_def erase_def bucket_def)
  qed
  ultimately show ?thesis using m by blast
qed

lemma clz_10: "clz_from 64 10 = 60"
  by code_simp

lemma ctor_10:
  "Hashtable_ctor (2 ^ 47) 10 = Inr \<lparr>htSize = 16, ht_mask = 15, ht = replicate 16 None\<rparr>"
  by (simp add: Hashtable_ctor_def builtin_clzl_def allocZeros_def clz_10)

lemma clz_2p59: "clz_from 64 (2 ^ 59) = 4"
  by code_simp

lemma ctor_2p59:
  "Hashtable_ctor (2 ^ 47) (2 ^ 59) = Inr \<lparr>htSize = 2 ^ 60, ht_mask = 2 ^ 60 - 1, ht = []\<rparr>"
  using clz_2p59 by (simp add: Hashtable_ctor_def builtin_clzl_def allocZeros_def)

theorem bucket_index_in_bounds_witness:
  "1 \<le> unat (10 :: u64) \<and> unat (10 :: u64) < 2 ^ 63 \<and> unat (10 :: u64) < 2 ^ 60
   \<and> Hashtable_ctor (2 ^ 47) 10 = Inr \<lparr>htSize = 16, ht_mask = 15, ht = replicate 16 None\<rparr>
   \<and> 8 * unat (16 :: u64) \<le> (2 :: nat) ^ 47
   \<and> unat (hashKey 7 AND 15) < unat (16 :: u64)
   \<and> (\<exists>t' h'. run [Insert 7 1, Insert 23 2, Erase 7]
                 \<lparr>htSize = 16, ht_mask = 15, ht = replicate 16 None\<rparr> empty_heap
                 = Some (Inr (t', h'))
          \<and> length (ht t') = unat (htSize t')
          \<and> unat (hashKey 7 AND ht_mask t') < length (ht t'))
   \<and> 1 \<le> unat (2 ^ 59 :: u64) \<and> unat (2 ^ 59 :: u64) < 2 ^ 63
   \<and> Hashtable_ctor (2 ^ 47) (2 ^ 59)
       = Inr \<lparr>htSize = 2 ^ 60, ht_mask = 2 ^ 60 - 1, ht = []\<rparr>
   \<and> \<not> (unat (2 ^ 59 :: u64) < 2 ^ 60 \<and> 8 * unat (2 ^ 60 :: u64) \<le> (2 :: nat) ^ 47)
   \<and> lookup \<lparr>htSize = 2 ^ 60, ht_mask = 2 ^ 60 - 1, ht = []\<rparr> empty_heap 7
       = Some (Inl OutOfBounds)"
proof -
  have a: "1 \<le> unat (10 :: u64)" "unat (10 :: u64) < 2 ^ 63" "unat (10 :: u64) < 2 ^ 60"
    "8 * unat (16 :: u64) \<le> (2 :: nat) ^ 47"
    by simp_all
  have g: "8 * unat (htSize \<lparr>htSize = 16, ht_mask = 15, ht = replicate 16 None\<rparr>)
             \<le> (2 :: nat) ^ 47"
    by simp
  note th = bucket_index_in_bounds[OF a(1,2) ctor_10,
      of 7 "[Insert 7 1, Insert 23 2, Erase 7]" empty_heap 0]
  have A1: "unat (hashKey 7 AND 15) < unat (16 :: u64)"
    using th[THEN conjunct1] by simp
  from th[THEN conjunct2, THEN conjunct2, THEN conjunct2, THEN conjunct1, rule_format,
      OF conjI[OF a(3) g]]
  obtain t' h' where "run [Insert 7 1, Insert 23 2, Erase 7]
        \<lparr>htSize = 16, ht_mask = 15, ht = replicate 16 None\<rparr> empty_heap = Some (Inr (t', h'))"
    "length (ht t') = unat (htSize t')" "unat (hashKey 7 AND ht_mask t') < length (ht t')"
    by blast
  then have A2: "\<exists>t' h'. run [Insert 7 1, Insert 23 2, Erase 7]
                 \<lparr>htSize = 16, ht_mask = 15, ht = replicate 16 None\<rparr> empty_heap
                 = Some (Inr (t', h'))
          \<and> length (ht t') = unat (htSize t')
          \<and> unat (hashKey 7 AND ht_mask t') < length (ht t')"
    by blast
  have b: "1 \<le> unat (2 ^ 59 :: u64)" "unat (2 ^ 59 :: u64) < 2 ^ 63"
    "\<not> (unat (2 ^ 59 :: u64) < 2 ^ 60 \<and> 8 * unat (2 ^ 60 :: u64) \<le> (2 :: nat) ^ 47)"
    by simp_all
  have g': "\<not> (unat (2 ^ 59 :: u64) < 2 ^ 60
      \<and> 8 * unat (htSize \<lparr>htSize = 2 ^ 60, ht_mask = 2 ^ 60 - 1, ht = []\<rparr>) \<le> (2 :: nat) ^ 47)"
    by simp
  note th' = bucket_index_in_bounds[OF b(1,2) ctor_2p59, of 7 "[]" empty_heap 0]
  have B: "lookup \<lparr>htSize = 2 ^ 60, ht_mask = 2 ^ 60 - 1, ht = []\<rparr> empty_heap 7
       = Some (Inl OutOfBounds)"
    using th'[THEN conjunct2, THEN conjunct2, THEN conjunct2, THEN conjunct2, rule_format, OF g']
    by blast
  from a b A1 A2 B ctor_10 ctor_2p59 show ?thesis by blast
qed

lemma clz_2p60: "clz_from 64 (2 ^ 60) = 3"
  by code_simp

lemma ctor_big:
  "Hashtable_ctor (2 ^ 64) (2 ^ 60) = Inr \<lparr>htSize = 2 ^ 61, ht_mask = 2 ^ 61 - 1, ht = []\<rparr>"
  using clz_2p60 by (simp add: Hashtable_ctor_def builtin_clzl_def allocZeros_def)

text \<open>
  Claim C10 as stated fails for \<open>2^60 \<le> s < 2^63\<close> whatever the system grants: for
  \<open>s = 2^60\<close> the bucket count is \<open>2^61\<close>, the byte count \<open>8 * 2^61\<close> wraps to 0, \<open>mmap\<close>
  refuses a request of 0 bytes and nothing is mapped, here with up to \<open>2^64\<close> bytes on
  offer.  The bucket access of \<open>lookup\<close>, \<open>insert\<close> and \<open>erase\<close> is outside the array.
\<close>

theorem bucket_access_counterexample:
  "unat (2 ^ 60 :: u64) < 2 ^ 63
   \<and> Hashtable_ctor (2 ^ 64) (2 ^ 60)
       = Inr \<lparr>htSize = 2 ^ 61, ht_mask = 2 ^ 61 - 1, ht = []\<rparr>
   \<and> lookup \<lparr>htSize = 2 ^ 61, ht_mask = 2 ^ 61 - 1, ht = []\<rparr> empty_heap 0 = Some (Inl OutOfBounds)
   \<and> insert_kv \<lparr>htSize = 2 ^ 61, ht_mask = 2 ^ 61 - 1, ht = []\<rparr> empty_heap 0 0 = Some (Inl OutOfBounds)
   \<and> erase \<lparr>htSize = 2 ^ 61, ht_mask = 2 ^ 61 - 1, ht = []\<rparr> empty_heap 0 = Some (Inl OutOfBounds)"
  using ctor_big by (simp add: lookup_def insert_kv_def erase_def bucket_def)

section \<open>Destruction\<close>

lemma free_chain_spec:
  "chain (objs h) p as \<Longrightarrow> distinct as \<Longrightarrow>
   free_chain h p = Some (Inr (h\<lparr>objs := (\<lambda>a. if a \<in> set as then None else objs h a),
                                  freed := rev as @ freed h\<rparr>))"
proof (induction as arbitrary: h p)
  case Nil
  then show ?case by (subst free_chain.simps) simp
next
  case (Cons a as)
  from Cons.prems(1) obtain en where en: "p = Some a" "objs h a = Some en"
    "chain (objs h) (e_next en) as"
    by (auto split: option.splits)
  define h1 where "h1 = h\<lparr>objs := (objs h)(a := None), freed := a # freed h\<rparr>"
  have d: "delete_Entry h a = Inr h1"
    unfolding h1_def by (rule delete_live[OF en(2)])
  have "chain (objs h1) (e_next en) as"
    using en(3) Cons.prems(2) by (simp add: h1_def chain_upd_notin)
  from Cons.IH[OF this] Cons.prems(2)
  have "free_chain h1 (e_next en) =
      Some (Inr (h1\<lparr>objs := (\<lambda>b. if b \<in> set as then None else objs h1 b),
                     freed := rev as @ freed h1\<rparr>))"
    by simp
  moreover have "h1\<lparr>objs := (\<lambda>b. if b \<in> set as then None else objs h1 b),
                     freed := rev as @ freed h1\<rparr>
      = h\<lparr>objs := (\<lambda>b. if b \<in> set (a # as) then None else objs h b),
           freed := rev (a # as) @ freed h\<rparr>"
    by (auto simp: h1_def fun_eq_iff)
  ultimately show ?case
    by (subst free_chain.simps) (simp add: en d)
qed

lemma dtor_loop_spec:
  assumes "length (ht t) = unat (htSize t)" and "length ass = length (ht t)"
    and "unat i = n" and "n \<le> length ass"
    and "\<And>j. n \<le> j \<Longrightarrow> j < length ass \<Longrightarrow> chain (objs h) (ht t ! j) (ass ! j)"
    and "distinct (concat (drop n ass))"
  shows "dtor_loop t h i =
     Some (Inr (h\<lparr>objs := (\<lambda>a. if a \<in> set (concat (drop n ass)) then None else objs h a),
                   freed := rev (concat (drop n ass)) @ freed h\<rparr>))"
  using assms(3-)
proof (induction "length ass - n" arbitrary: n i h)
  case 0
  then have "n = length ass" by simp
  with 0 assms(1,2) have "i = htSize t" by (simp add: word_unat_eq_iff)
  then show ?case
    using \<open>n = length ass\<close> by (subst dtor_loop.simps) simp
next
  case (Suc m)
  then have n: "n < length ass" by simp
  with Suc.prems(1) assms(1,2) have ne: "i \<noteq> htSize t" by auto
  have bk: "bucket t i = Inr (ht t ! n)"
    using n Suc.prems(1) assms(2) by (simp add: bucket_def)
  have dr: "drop n ass = ass ! n # drop (Suc n) ass"
    using n by (simp add: Cons_nth_drop_Suc)
  have dn: "distinct (ass ! n)" and dd: "distinct (concat (drop (Suc n) ass))"
    and disj: "set (ass ! n) \<inter> set (concat (drop (Suc n) ass)) = {}"
    using Suc.prems(4) unfolding dr by auto
  define h1 where "h1 = h\<lparr>objs := (\<lambda>a. if a \<in> set (ass ! n) then None else objs h a),
                           freed := rev (ass ! n) @ freed h\<rparr>"
  have fc: "free_chain h (ht t ! n) = Some (Inr h1)"
    unfolding h1_def by (rule free_chain_spec[OF Suc.prems(3)[OF le_refl n] dn])
  have "unat i < unat (htSize t)"
    using n Suc.prems(1) assms(1,2) by simp
  then have "unat i + 1 < 2 ^ LENGTH(64)"
    using unsigned_less[of "htSize t", where ?'a = nat] by simp
  then have i1: "unat (i + 1) = Suc n"
    using Suc.prems(1) by (simp add: unat_add_lem[THEN iffD1])
  have ch1: "chain (objs h1) (ht t ! j) (ass ! j)" if "Suc n \<le> j" "j < length ass" for j
  proof -
    have "ass ! j \<in> set (drop (Suc n) ass)"
      using that by (auto simp: in_set_conv_nth intro!: exI[of _ "j - Suc n"])
    then have "set (ass ! j) \<subseteq> set (concat (drop (Suc n) ass))" by auto
    with disj have "b \<notin> set (ass ! n)" if "b \<in> set (ass ! j)" for b using that by auto
    then have "chain (objs h1) (ht t ! j) (ass ! j) = chain (objs h) (ht t ! j) (ass ! j)"
      by (intro chain_cong) (simp add: h1_def)
    with Suc.prems(3)[of j] that show ?thesis by simp
  qed
  have "m = length ass - Suc n" using Suc.hyps(2) by simp
  from Suc.hyps(1)[OF this i1 _ ch1 dd] n
  have rec: "dtor_loop t h1 (i + 1) =
      Some (Inr (h1\<lparr>objs := (\<lambda>a. if a \<in> set (concat (drop (Suc n) ass)) then None else objs h1 a),
                     freed := rev (concat (drop (Suc n) ass)) @ freed h1\<rparr>))"
    by simp
  have "h1\<lparr>objs := (\<lambda>a. if a \<in> set (concat (drop (Suc n) ass)) then None else objs h1 a),
            freed := rev (concat (drop (Suc n) ass)) @ freed h1\<rparr>
      = h\<lparr>objs := (\<lambda>a. if a \<in> set (concat (drop n ass)) then None else objs h a),
           freed := rev (concat (drop n ass)) @ freed h\<rparr>"
    unfolding dr by (auto simp: h1_def fun_eq_iff)
  with rec show ?case
    using ne by (subst dtor_loop.simps) (simp add: bk fc)
qed

lemma distinct_concat_nth:
  assumes "\<And>i. i < length xss \<Longrightarrow> distinct (xss ! i)"
    and "\<And>i j. i < length xss \<Longrightarrow> j < length xss \<Longrightarrow> i \<noteq> j \<Longrightarrow> set (xss ! i) \<inter> set (xss ! j) = {}"
  shows "distinct (concat xss)"
  using assms
proof (induction xss)
  case Nil
  then show ?case by simp
next
  case (Cons xs xss)
  have "distinct xs" using Cons.prems(1)[of 0] by simp
  moreover have "distinct (concat xss)"
  proof (rule Cons.IH)
    show "distinct (xss ! i)" if "i < length xss" for i
      using Cons.prems(1)[of "Suc i"] that by simp
    show "set (xss ! i) \<inter> set (xss ! j) = {}" if "i < length xss" "j < length xss" "i \<noteq> j" for i j
      using Cons.prems(2)[of "Suc i" "Suc j"] that by simp
  qed
  moreover have "set xs \<inter> set ys = {}" if "ys \<in> set xss" for ys
  proof -
    from that obtain j where "j < length xss" "ys = xss ! j" by (auto simp: in_set_conv_nth)
    with Cons.prems(2)[of 0 "Suc j"] show ?thesis by simp
  qed
  ultimately show ?case by auto
qed

lemma valid_distinct_concat:
  assumes v: "valid t h ass"
  shows "distinct (concat ass)" and "set (concat ass) = dom (objs h)"
proof -
  note la = valid_length[OF v]
  show "distinct (concat ass)"
  proof (rule distinct_concat_nth)
    show "distinct (ass ! i)" if "i < length ass" for i
      using valid_distinct_keys[OF v, of i] that la distinct_map_D by auto
    show "set (ass ! i) \<inter> set (ass ! j) = {}" if "i < length ass" "j < length ass" "i \<noteq> j" for i j
      using valid_disjoint[OF v, of i j] that la by auto
  qed
  have "a \<in> set (concat ass) \<longleftrightarrow> (\<exists>i < length ass. a \<in> set (ass ! i))" for a
    by simp (metis in_set_conv_nth)
  then show "set (concat ass) = dom (objs h)"
    unfolding valid_dom[OF v] using la by auto
qed

lemma dtor_valid:
  assumes v: "valid t h ass"
  shows "Hashtable_dtor pagesize t h =
     Some (Inr (h\<lparr>objs := (\<lambda>a. None), freed := rev (concat ass) @ freed h\<rparr>,
                munmap pagesize (pages pagesize (8 * length (ht t))) (unat (htSize t))))"
proof -
  note sh = valid_shape[OF v]
  have "dtor_loop t h 0 =
     Some (Inr (h\<lparr>objs := (\<lambda>a. if a \<in> set (concat (drop 0 ass)) then None else objs h a),
                   freed := rev (concat (drop 0 ass)) @ freed h\<rparr>))"
  proof (rule dtor_loop_spec)
    show "length (ht t) = unat (htSize t)" "length ass = length (ht t)" using sh by simp_all
    show "unat (0 :: u64) = 0" by simp
    show "0 \<le> length ass" by simp
    show "chain (objs h) (ht t ! j) (ass ! j)" if "j < length ass" for j
      using valid_chain[OF v, of j] that sh by simp
    show "distinct (concat (drop 0 ass))" using valid_distinct_concat(1)[OF v] by simp
  qed
  moreover have "(\<lambda>a. if a \<in> set (concat ass) then None else objs h a) = (\<lambda>a. None)"
    using valid_distinct_concat(2)[OF v] by (auto simp: fun_eq_iff)
  ultimately show ?thesis
    by (simp add: Hashtable_dtor_def)
qed

lemma dtor_releases_entries:
  assumes v: "valid t h ass"
  shows "\<exists>h' left released. Hashtable_dtor pagesize t h = Some (Inr (h', left))
           \<and> dom (objs h') = {}
           \<and> freed h' = released @ freed h \<and> distinct released
           \<and> set released = dom (objs h) \<and> length released = live_entries h"
proof -
  note d = valid_distinct_concat[OF v]
  have "length (rev (concat ass)) = card (dom (objs h))"
    using d distinct_card[of "concat ass"] by simp
  with dtor_valid[OF v, of pagesize] d show ?thesis
    by (intro exI[of _ "h\<lparr>objs := (\<lambda>a. None), freed := rev (concat ass) @ freed h\<rparr>"]
        exI[of _ "munmap pagesize (pages pagesize (8 * length (ht t))) (unat (htSize t))"]
        exI[of _ "rev (concat ass)"]) (simp add: live_entries_def)
qed

text \<open>With 4096-byte pages every well-formed table of more than 512 buckets keeps part
  of its bucket array mapped after destruction, whatever it holds.\<close>

lemma pages_gap:
  assumes "512 < n"
  shows "pages 4096 n < pages 4096 (8 * n)"
proof -
  define q where "q = (n + 4095) div 4096"
  have "q * 4096 \<le> n + 4095"
    unfolding q_def by (rule div_times_less_eq_dividend)
  moreover have "1 \<le> q"
    unfolding q_def using assms by (simp add: Suc_le_eq div_greater_zero_iff)
  ultimately have "(q + 1) * 4096 \<le> 8 * n + 4095"
    using assms by (cases "q = 1") auto
  then have "q + 1 \<le> (8 * n + 4095) div 4096"
    by (simp only: less_eq_div_iff_mult_less_eq[of 4096, simplified])
  then have "q < (8 * n + 4095) div 4096"
    by simp
  moreover have "pages 4096 m = (m + 4095) div 4096" for m
    by (simp add: pages_def)
  ultimately show ?thesis
    by (simp only: q_def)
qed

lemma dtor_leaks_4096:
  assumes v: "valid t h ass" and big: "512 < unat (htSize t)"
  shows "\<exists>h' left. Hashtable_dtor 4096 t h = Some (Inr (h', left)) \<and> 0 < left"
proof -
  have "length (ht t) = unat (htSize t)"
    using valid_shape[OF v] by simp
  with pages_gap[OF big] big
  have "0 < munmap 4096 (pages 4096 (8 * length (ht t))) (unat (htSize t))"
    by (simp add: munmap_def)
  with dtor_valid[OF v, of 4096] show ?thesis by simp
qed

lemma clz_837: "clz_from 64 837 = 54"
  by code_simp

lemma ctor_837:
  "Hashtable_ctor (2 ^ 47) 837
     = Inr \<lparr>htSize = 1024, ht_mask = 1023, ht = replicate 1024 None\<rparr>"
proof -
  have "allocZeros (2 ^ 47) (8 * 2 ^ 10) = replicate (2 ^ 10) None"
    by (rule allocZeros_pow2) simp_all
  then have "allocZeros (2 ^ 47) 8192 = replicate 1024 None" by simp
  then show ?thesis
    by (simp add: Hashtable_ctor_def builtin_clzl_def clz_837)
qed

text \<open>
  Claim C2 fails on the code.  The entries are released, each once (lemma
  \<open>dtor_releases_entries\<close>), but the bucket array is not (lemma \<open>dtor_leaks_4096\<close>):
  \<open>munmap(ht, htSize)\<close> passes the number of buckets where the mapping is
  \<open>sizeof(uint64_t) * htSize\<close> bytes long.  With 4096-byte pages, the table constructed
  with size 837 has 1024 buckets in a mapping of 2 pages; its destructor releases the
  page holding the first 1024 bytes and leaves 1 page mapped.
\<close>

theorem dtor_leaves_page_mapped:
  "Hashtable_ctor (2 ^ 47) 837
     = Inr \<lparr>htSize = 1024, ht_mask = 1023, ht = replicate 1024 None\<rparr>
   \<and> pages 4096 (8 * 1024) = 2
   \<and> Hashtable_dtor 4096 \<lparr>htSize = 1024, ht_mask = 1023, ht = replicate 1024 None\<rparr> empty_heap
       = Some (Inr (empty_heap, 1))"
proof -
  have s: "1 \<le> unat (837 :: u64)" "unat (837 :: u64) < 2 ^ 60"
    "8 * unat (htSize \<lparr>htSize = 1024, ht_mask = 1023, ht = replicate 1024 None\<rparr>) \<le> (2 :: nat) ^ 47"
    by simp_all
  have p: "pages 4096 (8 * 1024) = 2" "munmap 4096 2 1024 = 1"
    by (simp_all add: pages_def munmap_def)
  from dtor_valid[OF valid_ctor[OF s ctor_837], of 4096] ctor_837 p show ?thesis
    by (simp add: empty_heap_def)
qed

section \<open>Chain order\<close>

lemma map_remove1_inj:
  "inj_on f (set xs) \<Longrightarrow> a \<in> set xs \<Longrightarrow> map f (remove1 a xs) = remove1 (f a) (map f xs)"
proof (induction xs)
  case Nil
  then show ?case by simp
next
  case (Cons x xs)
  then show ?case by (auto simp: inj_on_def)
qed

lemma ordered_mem:
  assumes v: "valid t h ass" and o: "ordered t h ass ks"
  shows "k \<in> set ks \<longleftrightarrow> holder h (ass ! index t k) k \<noteq> None"
proof -
  have il: "index t k < length ass"
    using valid_index[OF v, of k] valid_length[OF v] by simp
  from o il have "key_at h ` set (ass ! index t k) = {k' \<in> set ks. index t k' = index t k}"
    unfolding ordered_def by (metis set_filter set_map)
  then show ?thesis by (auto simp: holder_None_iff)
qed

lemma step_ordered:
  assumes v: "valid t h ass" and o: "ordered t h ass ks"
  shows "\<exists>b t' h' ass'. step c t h = Some (Inr (b, t', h')) \<and> valid t' h' ass'
           \<and> ordered t' h' ass' (order_step c ks)"
proof (cases c)
  case (Insert k val)
  define i where "i = index t k"
  have il: "i < length ass"
    using valid_index[OF v, of k] valid_length[OF v] by (simp add: i_def)
  show ?thesis
  proof (cases "holder h (ass ! index t k) k")
    case None
    then have nk: "k \<notin> set ks" using ordered_mem[OF v o, of k] by simp
    from insert_new[OF v None, of val] obtain a t' h' where r:
      "insert_kv t h k val = Some (Inr (True, t', h'))" "a \<notin> dom (objs h)"
      "valid t' h' (ass[i := ass ! i @ [a]])"
      "objs h' a = Some \<lparr>e_key = k, e_value = val, e_next = None\<rparr>"
      "\<forall>b. b \<noteq> a \<longrightarrow> key_at h' b = key_at h b \<and> value_at h' b = value_at h b"
      "ht_mask t' = ht_mask t"
      unfolding i_def by blast
    have ka: "key_at h' a = k" using r(4) by (simp add: key_at_def)
    have keys: "map (key_at h') (ass ! j) = map (key_at h) (ass ! j)" if "j < length ass" for j
    proof (rule map_cong[OF refl])
      fix x assume "x \<in> set (ass ! j)"
      with valid_live[OF v, of j x] that valid_length[OF v] r(2) have "x \<noteq> a" by auto
      with r(5) show "key_at h' x = key_at h x" by simp
    qed
    have "ordered t' h' (ass[i := ass ! i @ [a]]) (ks @ [k])"
      unfolding ordered_def
    proof (intro allI impI)
      fix j assume "j < length (ass[i := ass ! i @ [a]])"
      then have j: "j < length ass" by simp
      from o j have oj: "map (key_at h) (ass ! j) = filter (\<lambda>k. index t k = j) ks"
        by (simp add: ordered_def)
      show "map (key_at h') (ass[i := ass ! i @ [a]] ! j) = filter (\<lambda>k. index t' k = j) (ks @ [k])"
        using j oj keys[OF j] ka
        by (cases "j = i") (auto simp: index_shape[OF r(6)] i_def)
    qed
    with r(1,3) nk Insert show ?thesis by auto
  next
    case (Some a)
    then have mk: "k \<in> set ks" using ordered_mem[OF v o, of k] by simp
    from insert_update[OF v Some, of val] obtain en where r:
      "objs h a = Some en"
      "insert_kv t h k val = Some (Inr (False, t, h\<lparr>objs := (objs h)(a \<mapsto> en\<lparr>e_value := val\<rparr>)\<rparr>))"
      "valid t (h\<lparr>objs := (objs h)(a \<mapsto> en\<lparr>e_value := val\<rparr>)\<rparr>) ass"
      by blast
    have "key_at (h\<lparr>objs := (objs h)(a \<mapsto> en\<lparr>e_value := val\<rparr>)\<rparr>) = key_at h"
      using r(1) by (auto simp: key_at_def fun_eq_iff)
    then have "ordered t (h\<lparr>objs := (objs h)(a \<mapsto> en\<lparr>e_value := val\<rparr>)\<rparr>) ass ks"
      using o by (simp add: ordered_def)
    with r mk Insert show ?thesis by auto
  qed
next
  case (Erase k)
  define i where "i = index t k"
  have il: "i < length ass" "i < length (ht t)"
    using valid_index[OF v, of k] valid_length[OF v] by (simp_all add: i_def)
  show ?thesis
  proof (cases "holder h (ass ! index t k) k")
    case None
    then have "k \<notin> set ks" using ordered_mem[OF v o, of k] by simp
    then have "remove1 k ks = ks" by (simp add: remove1_idem)
    with erase_absent[OF v None] v o Erase show ?thesis by auto
  next
    case (Some a)
    from erase_present[OF v Some] obtain t' h' where r:
      "erase t h k = Some (Inr (True, t', h'))"
      "valid t' h' (ass[i := remove1 a (ass ! i)])"
      "\<forall>b. b \<noteq> a \<longrightarrow> key_at h' b = key_at h b \<and> value_at h' b = value_at h b"
      "ht_mask t' = ht_mask t"
      unfolding i_def by blast
    from holder_Some_D[OF Some] have a: "a \<in> set (ass ! i)" "key_at h a = k"
      by (simp_all add: i_def)
    have dk: "distinct (map (key_at h) (ass ! i))" by (rule valid_distinct_keys[OF v il(2)])
    then have inj: "inj_on (key_at h) (set (ass ! i))" "distinct (ass ! i)"
      by (simp_all add: distinct_map)
    have "ordered t' h' (ass[i := remove1 a (ass ! i)]) (remove1 k ks)"
      unfolding ordered_def
    proof (intro allI impI)
      fix j assume "j < length (ass[i := remove1 a (ass ! i)])"
      then have j: "j < length ass" by simp
      from o j have oj: "map (key_at h) (ass ! j) = filter (\<lambda>k. index t k = j) ks"
        by (simp add: ordered_def)
      show "map (key_at h') (ass[i := remove1 a (ass ! i)] ! j)
            = filter (\<lambda>k. index t' k = j) (remove1 k ks)"
      proof (cases "j = i")
        case True
        have "map (key_at h') (remove1 a (ass ! i)) = map (key_at h) (remove1 a (ass ! i))"
        proof (rule map_cong[OF refl])
          fix x assume "x \<in> set (remove1 a (ass ! i))"
          with inj(2) have "x \<noteq> a" by simp
          with r(3) show "key_at h' x = key_at h x" by simp
        qed
        also have "\<dots> = remove1 k (map (key_at h) (ass ! i))"
          using map_remove1_inj[OF inj(1) a(1)] a(2) by simp
        also have "\<dots> = filter (\<lambda>k. index t k = i) (remove1 k ks)"
          using oj True by (simp add: filter_remove1)
        finally show ?thesis using True il by (simp add: index_shape[OF r(4)])
      next
        case False
        have "map (key_at h') (ass ! j) = map (key_at h) (ass ! j)"
        proof (rule map_cong[OF refl])
          fix x assume "x \<in> set (ass ! j)"
          with valid_disjoint[OF v _ il(2) _ a(1), of j] j valid_length[OF v] False
          have "x \<noteq> a" by auto
          with r(3) show "key_at h' x = key_at h x" by simp
        qed
        moreover have "filter (\<lambda>k. index t k = j) (remove1 k ks) = filter (\<lambda>k. index t k = j) ks"
          using False by (simp add: filter_remove1 remove1_idem i_def)
        ultimately show ?thesis using False oj by (simp add: index_shape[OF r(4)])
      qed
    qed
    with r(1,2) Erase show ?thesis by auto
  qed
qed

lemma run_ordered:
  "valid t h ass \<Longrightarrow> ordered t h ass ks \<Longrightarrow>
   \<exists>t' h' ass'. run cs t h = Some (Inr (t', h')) \<and> valid t' h' ass'
     \<and> ordered t' h' ass' (insertion_order cs ks)"
proof (induction cs arbitrary: t h ass ks)
  case Nil
  then show ?case by (auto simp: insertion_order_def)
next
  case (Cons c cs)
  from step_ordered[OF Cons.prems, of c] obtain b t1 h1 ass1 where
    s: "step c t h = Some (Inr (b, t1, h1))" "valid t1 h1 ass1"
    "ordered t1 h1 ass1 (order_step c ks)" by blast
  from Cons.IH[OF s(2,3)] s(1) show ?case by (simp add: insertion_order_def)
qed

text \<open>
  Claim C8.  On a well-formed table, inserting an absent key allocates a new entry and
  appends it at the tail of the chain of the key's bucket, every other chain keeping
  its entries and their order; in an empty bucket the new entry is the head.  Inserting
  a present key changes no chain: the same entries at the same addresses in the same
  order.  Hence along any sequence of calls the chain of every bucket lists its keys in
  the order in which they were (most recently) newly inserted.
\<close>

theorem chain_order:
  assumes "valid t h ass"
  shows "(lookup t h k = Some (Inr None) \<longrightarrow>
            (\<exists>a t' h'. insert_kv t h k v = Some (Inr (True, t', h'))
               \<and> a \<notin> dom (objs h)
               \<and> objs h' a = Some \<lparr>e_key = k, e_value = v, e_next = None\<rparr>
               \<and> valid t' h' (ass[index t k := ass ! index t k @ [a]])
               \<and> (ass ! index t k = [] \<longrightarrow> ht t' ! index t k = Some a)))
       \<and> (\<forall>e. lookup t h k = Some (Inr (Some e)) \<longrightarrow>
            (\<exists>h'. insert_kv t h k v = Some (Inr (False, t, h')) \<and> valid t h' ass))
       \<and> (\<forall>ks. ordered t h ass ks \<longrightarrow>
            (\<exists>t' h' ass'. run cs t h = Some (Inr (t', h')) \<and> valid t' h' ass'
               \<and> ordered t' h' ass' (insertion_order cs ks)))"
proof (intro conjI allI impI)
  assume "lookup t h k = Some (Inr None)"
  then have p: "holder h (ass ! index t k) k = None"
    using lookup_valid[OF assms, of k] by simp
  from insert_new[OF assms p, of v] obtain a t' h' where r:
    "insert_kv t h k v = Some (Inr (True, t', h'))" "a \<notin> dom (objs h)"
    "valid t' h' (ass[index t k := ass ! index t k @ [a]])"
    "objs h' a = Some \<lparr>e_key = k, e_value = v, e_next = None\<rparr>"
    "htSize t' = htSize t"
    by blast
  have il: "index t k < length (ht t)" by (rule valid_index[OF assms])
  have il': "index t k < length (ht t')"
    using il valid_shape[OF assms] valid_shape[OF r(3)] by simp
  have "ht t' ! index t k = Some a" if "ass ! index t k = []"
    using valid_chain[OF r(3) il'] il valid_length[OF assms] that by simp
  with r show "\<exists>a t' h'. insert_kv t h k v = Some (Inr (True, t', h'))
               \<and> a \<notin> dom (objs h)
               \<and> objs h' a = Some \<lparr>e_key = k, e_value = v, e_next = None\<rparr>
               \<and> valid t' h' (ass[index t k := ass ! index t k @ [a]])
               \<and> (ass ! index t k = [] \<longrightarrow> ht t' ! index t k = Some a)"
    by blast
next
  fix e assume "lookup t h k = Some (Inr (Some e))"
  then have p: "holder h (ass ! index t k) k = Some e"
    using lookup_valid[OF assms, of k] by simp
  from insert_update[OF assms p, of v]
  show "\<exists>h'. insert_kv t h k v = Some (Inr (False, t, h')) \<and> valid t h' ass"
    by blast
next
  fix ks assume "ordered t h ass ks"
  from run_ordered[OF assms this, of cs]
  show "\<exists>t' h' ass'. run cs t h = Some (Inr (t', h')) \<and> valid t' h' ass'
               \<and> ordered t' h' ass' (insertion_order cs ks)" .
qed

theorem chain_order_witness:
  "valid table2 heap2 [[0, 1], []]
   \<and> lookup table2 heap2 2 = Some (Inr None) \<and> index table2 2 = 0
   \<and> (\<exists>a t' h'. insert_kv table2 heap2 2 5 = Some (Inr (True, t', h'))
          \<and> a \<notin> dom (objs heap2)
          \<and> objs h' a = Some \<lparr>e_key = 2, e_value = 5, e_next = None\<rparr>
          \<and> valid t' h' [[0, 1, a], []])
   \<and> lookup table2 heap2 1 = Some (Inr (Some 1))
   \<and> (\<exists>h'. insert_kv table2 heap2 1 5 = Some (Inr (False, table2, h'))
          \<and> valid table2 h' [[0, 1], []])
   \<and> ordered table2 heap2 [[0, 1], []] [0, 1]
   \<and> insertion_order [Insert 2 5, Erase 0, Insert 0 1, Insert 1 3] [0, 1] = [1, 2, 0]
   \<and> (\<exists>t' h' ass'. run [Insert 2 5, Erase 0, Insert 0 1, Insert 1 3] table2 heap2
            = Some (Inr (t', h')) \<and> valid t' h' ass' \<and> ordered t' h' ass' [1, 2, 0])"
proof -
  note th = chain_order[OF valid_table2]
  have io: "insertion_order [Insert 2 5, Erase 0, Insert 0 1, Insert 1 3] [0, 1] = [1, 2, 0]"
    by (simp add: insertion_order_def)
  from th[of 2 5 "[]", THEN conjunct1, rule_format, OF lookup_table2_2]
  have A: "\<exists>a t' h'. insert_kv table2 heap2 2 5 = Some (Inr (True, t', h'))
          \<and> a \<notin> dom (objs heap2)
          \<and> objs h' a = Some \<lparr>e_key = 2, e_value = 5, e_next = None\<rparr>
          \<and> valid t' h' [[0, 1, a], []]"
    by (simp add: index_table2_2)
  from th[of 1 5 "[]", THEN conjunct2, THEN conjunct1, rule_format, OF lookup_table2(2)]
  have B: "\<exists>h'. insert_kv table2 heap2 1 5 = Some (Inr (False, table2, h'))
          \<and> valid table2 h' [[0, 1], []]" .
  from th[of 0 0 "[Insert 2 5, Erase 0, Insert 0 1, Insert 1 3]", THEN conjunct2, THEN conjunct2,
      rule_format, OF ordered_table2]
  have C: "\<exists>t' h' ass'. run [Insert 2 5, Erase 0, Insert 0 1, Insert 1 3] table2 heap2
            = Some (Inr (t', h')) \<and> valid t' h' ass' \<and> ordered t' h' ass' [1, 2, 0]"
    by (simp add: io)
  from A B C io valid_table2 lookup_table2_2 index_table2_2 lookup_table2(2) ordered_table2
  show ?thesis by blast
qed

end
